theory Spec2Isabelle
  imports Main
begin

section \<open>The document tree under the container element\<close>

text \<open>
  The plugin works on the element it is applied to (\<open>this.el\<close>) through jQuery. The
  children of that element are a forest of element nodes; a node has a tag, the list of
  its classes and its children. An element is referred to by its path: the list of child
  indices that leads from the container to it. A jQuery collection is a list of paths.
\<close>

datatype node = Elem (tag: string) (classes: "string list") (kids: "node list")

type_synonym path = "nat list"

fun nodeAt :: "node list \<Rightarrow> path \<Rightarrow> node option" where
  "nodeAt ns [] = None"
| "nodeAt ns [i] = (if i < length ns then Some (ns ! i) else None)"
| "nodeAt ns (i # j # p) = (if i < length ns then nodeAt (kids (ns ! i)) (j # p) else None)"

definition tagAt :: "node list \<Rightarrow> path \<Rightarrow> string option" where
  "tagAt ns p = map_option tag (nodeAt ns p)"

definition classesAt :: "node list \<Rightarrow> path \<Rightarrow> string list option" where
  "classesAt ns p = map_option classes (nodeAt ns p)"

text \<open>The children of the element at \<open>root\<close>; the empty path is the container itself.\<close>

definition kidsAt :: "node list \<Rightarrow> path \<Rightarrow> node list" where
  "kidsAt ns root =
     (if root = [] then ns
      else case nodeAt ns root of None \<Rightarrow> [] | Some n \<Rightarrow> kids n)"

text \<open>The sibling list an element lives in (the children of its parent).\<close>

definition siblings :: "node list \<Rightarrow> path \<Rightarrow> node list" where
  "siblings ns p = (if p = [] then [] else kidsAt ns (butlast p))"

text \<open>All descendants of a forest in document order, as paths relative to its parent.\<close>

fun pathsFrom :: "nat \<Rightarrow> node list \<Rightarrow> path list" where
  "pathsFrom i [] = []"
| "pathsFrom i (Elem t c ks # ns) =
     [i] # map ((#) i) (pathsFrom 0 ks) @ pathsFrom (Suc i) ns"

text \<open>Changing the class list of the element at a path.\<close>

fun modAt :: "(string list \<Rightarrow> string list) \<Rightarrow> path \<Rightarrow> node list \<Rightarrow> node list" where
  "modAt g [] ns = ns"
| "modAt g [i] ns =
     (if i < length ns
      then ns[i := Elem (tag (ns ! i)) (g (classes (ns ! i))) (kids (ns ! i))] else ns)"
| "modAt g (i # j # p) ns =
     (if i < length ns
      then ns[i := Elem (tag (ns ! i)) (classes (ns ! i)) (modAt g (j # p) (kids (ns ! i)))]
      else ns)"

section \<open>The jQuery operations the plugin uses\<close>

text \<open>Selectors: \<open>"li"\<close>, \<open>"ul"\<close> and \<open>"li:nth-of-type(n)"\<close>.\<close>

definition isTag :: "string \<Rightarrow> node list \<Rightarrow> path \<Rightarrow> bool" where
  "isTag t ns p = (tagAt ns p = Some t)"

text \<open>
  \<open>t:nth-of-type(n)\<close>: the element has tag \<open>t\<close> and is the \<open>n\<close>-th of its siblings with
  that tag, counted from one. No element matches when \<open>n < 1\<close>.
\<close>

definition nthOfType :: "string \<Rightarrow> int \<Rightarrow> node list \<Rightarrow> path \<Rightarrow> bool" where
  "nthOfType t n ns p =
     (p \<noteq> [] \<and> tagAt ns p = Some t \<and>
      int (length (filter (\<lambda>k. tag k = t) (take (Suc (last p)) (siblings ns p)))) = n)"

text \<open>\<open>$(root).find(sel)\<close>: the descendants of \<open>root\<close> that match, in document order.\<close>

definition find_in :: "path \<Rightarrow> (node list \<Rightarrow> path \<Rightarrow> bool) \<Rightarrow> node list \<Rightarrow> path list" where
  "find_in root sel ns = filter (sel ns) (map ((@) root) (pathsFrom 0 (kidsAt ns root)))"

text \<open>\<open>.prevAll()\<close> and \<open>.nextAll()\<close>: the siblings before and after each element.\<close>

definition prevAll :: "path list \<Rightarrow> path list" where
  "prevAll ps =
     concat (map (\<lambda>p. if p = [] then [] else map (\<lambda>k. butlast p @ [k]) [0..<last p]) ps)"

definition nextAll :: "node list \<Rightarrow> path list \<Rightarrow> path list" where
  "nextAll ns ps =
     concat (map (\<lambda>p. if p = [] then []
                      else map (\<lambda>k. butlast p @ [k]) [Suc (last p)..<length (siblings ns p)]) ps)"

text \<open>
  \<open>.add(...)\<close> is the union of two collections. The plugin only changes classes on the
  result, for which neither order nor repetition matters.
\<close>

definition add :: "path list \<Rightarrow> path list \<Rightarrow> path list" where
  "add ps qs = ps @ qs"

definition insertClass :: "string \<Rightarrow> string list \<Rightarrow> string list" where
  "insertClass c cs = (if c \<in> set cs then cs else cs @ [c])"

definition deleteClass :: "string \<Rightarrow> string list \<Rightarrow> string list" where
  "deleteClass c cs = filter (\<lambda>x. x \<noteq> c) cs"

definition addClass :: "string \<Rightarrow> path list \<Rightarrow> node list \<Rightarrow> node list" where
  "addClass c ps ns = fold (modAt (insertClass c)) ps ns"

definition removeClass :: "string \<Rightarrow> path list \<Rightarrow> node list \<Rightarrow> node list" where
  "removeClass c ps ns = fold (modAt (deleteClass c)) ps ns"

text \<open>\<open>.index(x)\<close>: the position of \<open>x\<close> in the collection, \<open>-1\<close> when it is absent.\<close>

fun indexOf :: "'a list \<Rightarrow> 'a \<Rightarrow> int" where
  "indexOf [] x = - 1"
| "indexOf (y # ys) x =
     (if x = y then 0 else (let r = indexOf ys x in if r < 0 then - 1 else r + 1))"

section \<open>The plugin instance and the state of one container\<close>

text \<open>
  \<open>count\<close> is \<open>this.count\<close> (\<open>None\<close> is \<open>null\<close>) and \<open>starCount\<close> is
  \<open>this.options.starCount\<close>.
\<close>

record plugin =
  count :: "int option"
  starCount :: int

datatype event = Mouseover | Mouseout | Click

text \<open>
  The state of a container: its children, the instance kept in its data under
  \<open>"plugin_starRating"\<close>, and the delegated handlers bound on it in the plugin's
  namespace. Every handler is a closure over \<open>$wrapper\<close>, kept as the index of the
  wrapper list among the container's children, and over the instance \<open>thiz\<close>, which is
  the one in \<open>data\<close>: \<open>destroy\<close> unbinds the handlers when it removes the data.
\<close>

record world =
  content :: "node list"
  data :: "plugin option"
  handlers :: "(event \<times> nat) list"

definition defaults :: int where
  "defaults = 5"

definition getters :: "string list" where
  "getters = [''get'']"

definition setCount :: "int option \<Rightarrow> world \<Rightarrow> world" where
  "setCount c w = w\<lparr>data := map_option (\<lambda>thiz. thiz\<lparr>count := c\<rparr>) (data w)\<rparr>"

definition starLi :: node where
  "starLi = Elem ''li'' [''star''] [Elem ''i'' [''fa'', ''fa-star'', ''fa-fw''] []]"

text \<open>
  \<open>_build\<close>: each of the \<open>starCount\<close> rounds of the loop binds the three handlers again
  and makes one star; the wrapper list is appended to the container.
\<close>

definition build :: "plugin \<Rightarrow> world \<Rightarrow> world" where
  "build thiz w =
     (let wrapper = length (content w); n = nat (starCount thiz) in
      w\<lparr>content := content w @ [Elem ''ul'' [''star-rating''] (replicate n starLi)],
        handlers := handlers w @
          concat (replicate n [(Mouseover, wrapper), (Mouseout, wrapper), (Click, wrapper)])\<rparr>)"

text \<open>The constructor \<open>Plugin(element, options)\<close>, with the instance stored in the data.\<close>

definition Plugin :: "int option \<Rightarrow> world \<Rightarrow> world" where
  "Plugin options w =
     (let thiz = \<lparr>count = None, starCount = (case options of None \<Rightarrow> defaults | Some n \<Rightarrow> n)\<rparr>
      in (build thiz w)\<lparr>data := Some thiz\<rparr>)"

subsection \<open>The handlers\<close>

definition mouseoverHandler :: "path \<Rightarrow> world \<Rightarrow> world" where
  "mouseoverHandler this w =
     w\<lparr>content := addClass ''hover'' (add (prevAll [this]) [this]) (content w)\<rparr>"

definition mouseoutHandler :: "path \<Rightarrow> world \<Rightarrow> world" where
  "mouseoutHandler this w =
     (let c1 = removeClass ''hover'' (add (prevAll [this]) [this]) (content w);
          c2 = removeClass ''hover'' (add (nextAll c1 [this]) [this]) c1
      in w\<lparr>content := c2\<rparr>)"

definition clickHandler :: "nat \<Rightarrow> path \<Rightarrow> world \<Rightarrow> world" where
  "clickHandler wrapper this w =
     (let c1 = addClass ''selected'' (add (prevAll [this]) [this]) (content w);
          c2 = removeClass ''selected'' (nextAll c1 [this]) c1
      in setCount (Some (indexOf (find_in [wrapper] (isTag ''li'') c2) this + 1))
           (w\<lparr>content := c2\<rparr>))"

fun handler :: "event \<times> nat \<Rightarrow> path \<Rightarrow> world \<Rightarrow> world" where
  "handler (Mouseover, wrapper) this w = mouseoverHandler this w"
| "handler (Mouseout, wrapper) this w = mouseoutHandler this w"
| "handler (Click, wrapper) this w = clickHandler wrapper this w"

text \<open>
  An event on the element at \<open>target\<close> bubbles up to the container. The handlers are
  delegated to \<open>"li"\<close>: for every \<open>li\<close> from the target upwards, every handler bound for
  the event runs, in the order of binding, with that \<open>li\<close> as \<open>this\<close>.
\<close>

definition ancestorsOrSelf :: "path \<Rightarrow> path list" where
  "ancestorsOrSelf target = map (\<lambda>k. take k target) (rev [1..<Suc (length target)])"

definition runHandlers :: "event \<Rightarrow> path \<Rightarrow> world \<Rightarrow> world" where
  "runHandlers ev this w =
     fold (\<lambda>h s. if fst h = ev then handler h this s else s) (handlers w) w"

definition trigger :: "event \<Rightarrow> path \<Rightarrow> world \<Rightarrow> world" where
  "trigger ev target w =
     fold (\<lambda>this s. if isTag ''li'' (content s) this then runHandlers ev this s else s)
          (ancestorsOrSelf target) w"

subsection \<open>The methods of the prototype\<close>

text \<open>A thrown exception is an error value.\<close>

datatype error = TypeError | SyntaxError

text \<open>
  \<open>_setStarCount\<close>, lines 195 to 197, once \<open>find\<close> has returned the collection \<open>$lastStar\<close>
  for \<open>li:nth-of-type(n)\<close>.
\<close>

definition markStars :: "int \<Rightarrow> world \<Rightarrow> world" where
  "markStars n w =
     (let lastStar = find_in [] (nthOfType ''li'' n) (content w);
          c1 = addClass ''selected'' (add (prevAll lastStar) lastStar) (content w);
          c2 = removeClass ''selected'' (nextAll c1 lastStar) c1
      in setCount (Some n) (w\<lparr>content := c2\<rparr>))"

text \<open>
  \<open>_setStarCount\<close>, with an integer as its argument. The selector is built by appending
  the number to a string. JavaScript writes an integer of magnitude \<open>10^21\<close> or more in
  exponent notation (\<open>1e+21\<close>), jQuery rejects \<open>li:nth-of-type(1e+21)\<close>, and \<open>find\<close> throws
  before anything is marked or \<open>this.count\<close> is assigned. Smaller integers are written in
  decimal digits.
\<close>

definition setStarCount :: "int \<Rightarrow> world \<Rightarrow> error + world" where
  "setStarCount n w = (if 10 ^ 21 \<le> \<bar>n\<bar> then Inl SyntaxError else Inr (markStars n w))"

definition resetStarCount :: "world \<Rightarrow> world" where
  "resetStarCount w =
     setCount None
       (w\<lparr>content := removeClass ''selected'' (find_in [] (isTag ''li'') (content w)) (content w)\<rparr>)"

definition disableStarCount :: "world \<Rightarrow> world" where
  "disableStarCount w =
     w\<lparr>content := addClass ''disable'' (find_in [] (isTag ''ul'') (content w)) (content w)\<rparr>"

definition enableStarCount :: "world \<Rightarrow> world" where
  "enableStarCount w =
     w\<lparr>content := removeClass ''disable'' (find_in [] (isTag ''ul'') (content w)) (content w)\<rparr>"

definition destroy :: "world \<Rightarrow> world" where
  "destroy w = w\<lparr>handlers := [], data := None, content := []\<rparr>"

definition get :: "world \<Rightarrow> int option" where
  "get w = (case data w of None \<Rightarrow> None | Some thiz \<Rightarrow> count thiz)"

text \<open>The public methods only delegate.\<close>

definition set' :: "int \<Rightarrow> world \<Rightarrow> error + world" where
  "set' n w = setStarCount n w"

definition reset :: "world \<Rightarrow> world" where
  "reset w = resetStarCount w"

definition disable :: "world \<Rightarrow> world" where
  "disable w = disableStarCount w"

definition enable :: "world \<Rightarrow> world" where
  "enable w = enableStarCount w"

section \<open>The plugin wrapper \<open>$.fn.starRating\<close>\<close>

text \<open>
  The first argument is \<open>undefined\<close>, an object (with or without \<open>starCount\<close>), a string or
  some other value; \<open>rest\<close> are the arguments after it. The wrapper is applied to a
  collection of one element, the container. It returns the collection, the value of a
  getter, or nothing; a thrown exception is an error.
\<close>

datatype jsarg = Undef | Obj "int option" | Str string | Other

datatype retval = Elements | Returned "int option" | NoReturn

definition create :: "int option \<Rightarrow> world \<Rightarrow> world" where
  "create options w = (if data w = None then Plugin options w else w)"

text \<open>
  \<open>instance[options].apply(instance, rest)\<close>. Without an argument \<open>set\<close> asks jQuery for
  \<open>li:nth-of-type(undefined)\<close>, which it rejects. Any other name that is a function of
  the instance is inherited from \<open>Object.prototype\<close> and leaves the widget alone.
\<close>

definition invoke :: "string \<Rightarrow> int list \<Rightarrow> world \<Rightarrow> error + world" where
  "invoke name rest w =
     (if name = ''destroy'' then Inr (destroy w)
      else if name = ''set'' then
        (case rest of [] \<Rightarrow> Inl SyntaxError | n # _ \<Rightarrow> set' n w)
      else if name = ''reset'' then Inr (reset w)
      else if name = ''get'' then Inr w
      else if name = ''disable'' then Inr (disable w)
      else if name = ''enable'' then Inr (enable w)
      else Inr w)"

definition startsWithUnderscore :: "string \<Rightarrow> bool" where
  "startsWithUnderscore s = (case s of [] \<Rightarrow> False | c # _ \<Rightarrow> c = CHR ''_'')"

fun starRating :: "jsarg \<Rightarrow> int list \<Rightarrow> world \<Rightarrow> error + world \<times> retval" where
  "starRating Undef rest w = Inr (create None w, Elements)"
| "starRating (Obj options) rest w = Inr (create options w, Elements)"
| "starRating (Str options) rest w =
     (if \<not> startsWithUnderscore options \<and> options \<noteq> ''init'' then
        (if rest = [] \<and> options \<in> set getters then
           (case data w of
              None \<Rightarrow> Inl TypeError
            | Some instance \<Rightarrow> Inr (w, Returned (count instance)))
         else
           (case data w of
              None \<Rightarrow> Inr (w, Elements)
            | Some instance \<Rightarrow>
                (case invoke options rest w of
                   Inl e \<Rightarrow> Inl e
                 | Inr w' \<Rightarrow> Inr (w', Elements))))
      else Inr (w, NoReturn))"
| "starRating Other rest w = Inr (w, NoReturn)"

text \<open>A container on which the plugin has not run: no instance and no handlers of its own.\<close>

definition container :: "node list \<Rightarrow> world" where
  "container pre = \<lparr>content = pre, data = None, handlers = []\<rparr>"

section \<open>Initialized widgets\<close>

text \<open>The tree with every class list erased: what the class operations leave alone.\<close>

fun shape :: "node \<Rightarrow> node" where
  "shape (Elem t c ks) = Elem t [] (map shape ks)"

definition hasClass :: "string \<Rightarrow> node list \<Rightarrow> path \<Rightarrow> bool" where
  "hasClass c ns p = (case classesAt ns p of None \<Rightarrow> False | Some cs \<Rightarrow> c \<in> set cs)"

text \<open>
  The child \<open>wl\<close> of the container is a wrapper list of \<open>n\<close> stars as \<open>_build\<close> makes them,
  whatever their classes are.
\<close>

definition wrapped :: "node list \<Rightarrow> nat \<Rightarrow> nat \<Rightarrow> bool" where
  "wrapped ns wl n =
     (wl < length ns \<and> shape (ns ! wl) = Elem ''ul'' [] (replicate n (shape starLi)))"

definition wrapperIndex :: "world \<Rightarrow> nat" where
  "wrapperIndex w = length (content w) - 1"

text \<open>
  An initialized widget: the container has an instance in its data, its last child is the
  wrapper list with the stars of that instance, and the handlers of \<open>_build\<close> are bound.
\<close>

definition initialized :: "world \<Rightarrow> bool" where
  "initialized w =
     (case data w of
        None \<Rightarrow> False
      | Some thiz \<Rightarrow>
          wrapped (content w) (wrapperIndex w) (nat (starCount thiz)) \<and>
          handlers w =
            concat (replicate (nat (starCount thiz))
              [(Mouseover, wrapperIndex w), (Mouseout, wrapperIndex w),
               (Click, wrapperIndex w)]))"

text \<open>
  A live widget: the instance and the handlers are as \<open>_build\<close> left them and the last child
  of the container is still the wrapper list, whatever other code has since put into that
  list or taken out of it.
\<close>

definition live :: "world \<Rightarrow> bool" where
  "live w =
     (case data w of
        None \<Rightarrow> False
      | Some thiz \<Rightarrow>
          isTag ''ul'' (content w) [wrapperIndex w] \<and>
          handlers w =
            concat (replicate (nat (starCount thiz))
              [(Mouseover, wrapperIndex w), (Mouseout, wrapperIndex w),
               (Click, wrapperIndex w)]))"

text \<open>The children the wrapper list has now, and the number of \<open>li\<close> elements in a subtree.\<close>

definition stars :: "world \<Rightarrow> node list" where
  "stars w = kidsAt (content w) [wrapperIndex w]"

fun liCount :: "node \<Rightarrow> nat" where
  "liCount (Elem t c ks) = (if t = ''li'' then 1 else 0) + sum_list (map liCount ks)"

text \<open>The \<open>li\<close> elements of a forest in document order, its first tree at index \<open>i\<close>.\<close>

fun liPaths :: "nat \<Rightarrow> node list \<Rightarrow> path list" where
  "liPaths i [] = []"
| "liPaths i (Elem t c ks # ns) =
     (if t = ''li'' then [[i]] else []) @ map ((#) i) (liPaths 0 ks) @ liPaths (Suc i) ns"

text \<open>The star at position \<open>i\<close>, counted from one, and whether it is marked selected.\<close>

definition star :: "world \<Rightarrow> int \<Rightarrow> path" where
  "star w i = [wrapperIndex w, nat (i - 1)]"

definition selected :: "world \<Rightarrow> int \<Rightarrow> bool" where
  "selected w i = hasClass ''selected'' (content w) (star w i)"

text \<open>
  Two states of the same widget: the tree differs at most in classes, and the handlers and
  the configured number of stars are the same.
\<close>

definition sameWidget :: "world \<Rightarrow> world \<Rightarrow> bool" where
  "sameWidget w s =
     (map shape (content s) = map shape (content w) \<and> handlers s = handlers w \<and>
      map_option starCount (data s) = map_option starCount (data w))"

section \<open>The rating invariant and the reachable states\<close>

text \<open>
  The stars marked selected are the first \<open>count\<close> ones (none when \<open>count\<close> is \<open>null\<close>), and
  \<open>count\<close> is \<open>null\<close> or a position of a star.
\<close>

definition ratingInvariant :: "world \<Rightarrow> bool" where
  "ratingInvariant w =
     (case data w of
        None \<Rightarrow> True
      | Some thiz \<Rightarrow>
          (case count thiz of
             None \<Rightarrow> (\<forall>k \<in> set [1..starCount thiz]. \<not> selected w k)
           | Some s \<Rightarrow>
               1 \<le> s \<and> s \<le> starCount thiz \<and>
               (\<forall>k \<in> set [1..starCount thiz]. selected w k \<longleftrightarrow> k \<le> s)))"

text \<open>
  The states of a widget that come from \<open>create\<close> on a container with any content by
  further calls of \<open>create\<close>, \<open>set\<close> with the position of a star, \<open>reset\<close>, \<open>disable\<close> and
  \<open>enable\<close>, and by clicks on stars.
\<close>

inductive reachable :: "world \<Rightarrow> bool" where
  reach_first: "starRating (Obj options) [] (container pre) = Inr (w, r) \<Longrightarrow> reachable w"
| reach_first_default: "starRating Undef [] (container pre) = Inr (w, r) \<Longrightarrow> reachable w"
| reach_create: "reachable w \<Longrightarrow> starRating (Obj options) [] w = Inr (w', r) \<Longrightarrow> reachable w'"
| reach_create_default: "reachable w \<Longrightarrow> starRating Undef [] w = Inr (w', r) \<Longrightarrow> reachable w'"
| reach_set: "reachable w \<Longrightarrow> data w = Some thiz \<Longrightarrow> 1 \<le> n \<Longrightarrow> n \<le> starCount thiz \<Longrightarrow>
     starRating (Str ''set'') [n] w = Inr (w', r) \<Longrightarrow> reachable w'"
| reach_reset: "reachable w \<Longrightarrow> starRating (Str ''reset'') [] w = Inr (w', r) \<Longrightarrow> reachable w'"
| reach_disable: "reachable w \<Longrightarrow> starRating (Str ''disable'') [] w = Inr (w', r) \<Longrightarrow> reachable w'"
| reach_enable: "reachable w \<Longrightarrow> starRating (Str ''enable'') [] w = Inr (w', r) \<Longrightarrow> reachable w'"
| reach_click: "reachable w \<Longrightarrow> data w = Some thiz \<Longrightarrow> 1 \<le> i \<Longrightarrow> i \<le> starCount thiz \<Longrightarrow>
     reachable (trigger Click (star w i) w)"

text \<open>A run of \<open>set\<close> calls through the wrapper; an exception ends it.\<close>

fun setCalls :: "int list \<Rightarrow> world \<Rightarrow> error + world" where
  "setCalls [] w = Inr w"
| "setCalls (n # ns) w =
     (case starRating (Str ''set'') [n] w of
        Inl e \<Rightarrow> Inl e
      | Inr (w', r) \<Rightarrow> setCalls ns w')"

text \<open>A widget of three stars on an empty container, and one beside a paragraph.\<close>

definition threeStars :: world where
  "threeStars = create (Some 3) (container [])"

definition besideParagraph :: world where
  "besideParagraph = create (Some 2) (container [Elem ''p'' [] []])"


definition besideList :: world where
  "besideList = create (Some 2) (container [Elem ''ul'' [''menu''] [Elem ''li'' [] []]])"

section \<open>Facts about the tree and the jQuery operations\<close>

lemma tag_shape: "tag (shape n) = tag n" by (cases n) simp
lemma kids_shape: "kids (shape n) = map shape (kids n)" by (cases n) simp

lemma shape_modAt: "map shape (modAt g p ns) = map shape ns"
proof (induction g p ns rule: modAt.induct)
  case (1 g ns)
  show ?case by simp
next
  case (2 g i ns)
  show ?case
    by (cases "ns ! i") (auto simp: map_update list_eq_iff_nth_eq nth_list_update)
next
  case (3 g i j p ns)
  show ?case
  proof (cases "i < length ns")
    case True
    with 3 have "map shape (modAt g (j # p) (kids (ns ! i))) = map shape (kids (ns ! i))"
      by simp
    with True show ?thesis
      by (cases "ns ! i") (auto simp: map_update list_eq_iff_nth_eq nth_list_update)
  next
    case False
    then show ?thesis by simp
  qed
qed

lemma shape_fold_modAt: "map shape (fold (modAt g) ps ns) = map shape ns"
  by (induction ps arbitrary: ns) (auto simp: shape_modAt)

lemma nodeAt_shape: "nodeAt (map shape ns) p = map_option shape (nodeAt ns p)"
  by (induction ns p rule: nodeAt.induct) (auto simp: kids_shape)

lemma tagAt_shape: "tagAt (map shape ns) p = tagAt ns p"
  by (simp add: tagAt_def nodeAt_shape option.map_comp comp_def tag_shape)

lemma kidsAt_shape: "kidsAt (map shape ns) r = map shape (kidsAt ns r)"
  by (auto simp: kidsAt_def nodeAt_shape kids_shape split: option.splits)

lemma classesAt_modAt:
  "classesAt (modAt g p ns) q = (if q = p then map_option g (classesAt ns q) else classesAt ns q)"
proof (induction g p ns arbitrary: q rule: modAt.induct)
  case (1 g ns)
  show ?case by (simp add: classesAt_def)
next
  case (2 g i ns)
  show ?case
  proof (cases "(ns, q)" rule: nodeAt.cases)
    case (1 ns')
    then show ?thesis by (simp add: classesAt_def)
  next
    case (2 ns' i')
    then show ?thesis by (auto simp: classesAt_def nth_list_update)
  next
    case (3 ns' i' j' p')
    then show ?thesis by (auto simp: classesAt_def nth_list_update)
  qed
next
  case (3 g i j p ns)
  show ?case
  proof (cases "(ns, q)" rule: nodeAt.cases)
    case (1 ns')
    then show ?thesis by (simp add: classesAt_def)
  next
    case (2 ns' i')
    then show ?thesis by (auto simp: classesAt_def nth_list_update)
  next
    case (3 ns' i' j' p')
    show ?thesis
    proof (cases "i < length ns")
      case True
      note IH = "3.IH"[OF True, of "j' # p'", unfolded classesAt_def]
      from 3 True IH show ?thesis
        by (auto simp: classesAt_def nth_list_update)
    next
      case False
      then show ?thesis by (simp add: classesAt_def)
    qed
  qed
qed

lemma classesAt_fold_modAt:
  assumes idem: "\<And>x. g (g x) = g x"
  shows "classesAt (fold (modAt g) ps ns) q =
         (if q \<in> set ps then map_option g (classesAt ns q) else classesAt ns q)"
proof (induction ps arbitrary: ns)
  case Nil
  show ?case by simp
next
  case (Cons p ps)
  show ?case
    by (cases "classesAt ns q") (auto simp: Cons classesAt_modAt idem)
qed

lemma nodeAt_Cons_0: "nodeAt (n # ns) (0 # q) = (if q = [] then Some n else nodeAt (kids n) q)"
  by (cases q) auto

lemma nodeAt_Cons_Suc: "nodeAt (n # ns) (Suc j # q) = nodeAt ns (j # q)"
  by (cases q) auto

lemma nodeAt_Nil: "nodeAt [] p = None"
  by (cases "([]::node list, p)" rule: nodeAt.cases) auto

lemma pathsFrom_mem:
  "p \<in> set (pathsFrom i ns) \<longleftrightarrow> (\<exists>j q. p = (i + j) # q \<and> nodeAt ns (j # q) \<noteq> None)"
proof (induction i ns arbitrary: p rule: pathsFrom.induct)
  case (1 i)
  show ?case by (simp add: nodeAt_Nil)
next
  case (2 i t c ks ns)
  have a: "(\<exists>j q. p = (i + j) # q \<and> nodeAt (Elem t c ks # ns) (j # q) \<noteq> None) \<longleftrightarrow>
        (\<exists>q. p = i # q \<and> nodeAt (Elem t c ks # ns) (0 # q) \<noteq> None) \<or>
        (\<exists>j q. p = (Suc i + j) # q \<and> nodeAt (Elem t c ks # ns) (Suc j # q) \<noteq> None)"
    (is "?L \<longleftrightarrow> ?A \<or> ?B")
  proof
    assume ?L
    then obtain j q where h: "p = (i + j) # q" "nodeAt (Elem t c ks # ns) (j # q) \<noteq> None"
      by blast
    show "?A \<or> ?B"
    proof (cases j)
      case 0
      with h show ?thesis by auto
    next
      case (Suc j')
      with h have "p = (Suc i + j') # q \<and> nodeAt (Elem t c ks # ns) (Suc j' # q) \<noteq> None"
        by simp
      then show ?thesis by blast
    qed
  next
    assume "?A \<or> ?B"
    then show ?L
    proof
      assume ?A
      then obtain q where "p = (i + 0) # q" "nodeAt (Elem t c ks # ns) (0 # q) \<noteq> None"
        by auto
      then show ?L by blast
    next
      assume ?B
      then obtain j q where "p = (i + Suc j) # q" "nodeAt (Elem t c ks # ns) (Suc j # q) \<noteq> None"
        by auto
      then show ?L by blast
    qed
  qed
  have b: "?A \<longleftrightarrow> p = [i] \<or> p \<in> (#) i ` set (pathsFrom 0 ks)"
  proof -
    have "?A \<longleftrightarrow> (\<exists>q. p = i # q \<and> (q = [] \<or> nodeAt ks q \<noteq> None))"
      by (auto simp: nodeAt_Cons_0)
    also have "\<dots> \<longleftrightarrow> p = [i] \<or> (\<exists>q. p = i # q \<and> q \<in> set (pathsFrom 0 ks))"
    proof -
      have "\<And>q. q \<in> set (pathsFrom 0 ks) \<longleftrightarrow> nodeAt ks q \<noteq> None"
      proof -
        fix q
        show "q \<in> set (pathsFrom 0 ks) \<longleftrightarrow> nodeAt ks q \<noteq> None"
          by (cases q) (auto simp: "2.IH"(1))
      qed
      then show ?thesis by auto
    qed
    finally show ?thesis by auto
  qed
  have c: "?B \<longleftrightarrow> p \<in> set (pathsFrom (Suc i) ns)"
    by (simp add: "2.IH"(2) nodeAt_Cons_Suc)
  show ?case
    unfolding a b c by auto
qed

lemma pathsFrom_0_mem: "p \<in> set (pathsFrom 0 ns) \<longleftrightarrow> nodeAt ns p \<noteq> None"
  by (cases p) (auto simp: pathsFrom_mem)

lemma find_in_root_mem:
  "p \<in> set (find_in [] sel ns) \<longleftrightarrow> nodeAt ns p \<noteq> None \<and> sel ns p"
  by (auto simp: find_in_def kidsAt_def pathsFrom_0_mem)

lemma wrapped_kids:
  assumes "wrapped ns wl n"
  shows "map shape (kidsAt ns [wl]) = replicate n (shape starLi)"
    and "length (kidsAt ns [wl]) = n"
proof -
  from assms have "kids (shape (ns ! wl)) = replicate n (shape starLi)" "wl < length ns"
    by (simp_all add: wrapped_def)
  then show a: "map shape (kidsAt ns [wl]) = replicate n (shape starLi)"
    by (simp add: kidsAt_def kids_shape)
  from arg_cong[OF a, of length] show "length (kidsAt ns [wl]) = n" by simp
qed

lemma wrapped_kid_shape:
  assumes "wrapped ns wl n" "j < n"
  shows "shape (kidsAt ns [wl] ! j) = shape starLi"
proof -
  from wrapped_kids[OF assms(1)] assms(2)
  have "map shape (kidsAt ns [wl]) ! j = shape starLi" "j < length (kidsAt ns [wl])"
    by simp_all
  then show ?thesis by simp
qed

lemma wrapped_nodeAt:
  assumes "wrapped ns wl n"
  shows "nodeAt ns [wl, j] = (if j < n then Some (kidsAt ns [wl] ! j) else None)"
  using assms wrapped_kids(2)[OF assms] by (auto simp: wrapped_def kidsAt_def)

lemma wrapped_tagAt:
  assumes "wrapped ns wl n"
  shows "tagAt ns [wl, j] = (if j < n then Some ''li'' else None)"
proof (cases "j < n")
  case True
  from wrapped_kid_shape[OF assms True] have "tag (shape (kidsAt ns [wl] ! j)) = ''li''"
    by (simp add: starLi_def)
  with True show ?thesis
    by (simp add: tagAt_def wrapped_nodeAt[OF assms] tag_shape del: nodeAt.simps)
next
  case False
  then show ?thesis by (simp add: tagAt_def wrapped_nodeAt[OF assms] del: nodeAt.simps)
qed

lemma wrapped_tags:
  assumes "wrapped ns wl n"
  shows "map tag (kidsAt ns [wl]) = replicate n ''li''"
proof -
  have "map tag (kidsAt ns [wl]) = map tag (map shape (kidsAt ns [wl]))"
    by (simp add: comp_def tag_shape)
  also have "\<dots> = replicate n ''li''"
    by (simp add: wrapped_kids(1)[OF assms] starLi_def)
  finally show ?thesis .
qed

lemma wrapped_siblings: "siblings ns [wl, j] = kidsAt ns [wl]"
  by (simp add: siblings_def)

lemma count_same_tag:
  assumes "map tag xs = replicate n t"
  shows "length (filter (\<lambda>k. tag k = t) (take m xs)) = min m n"
proof -
  have "length xs = n" using arg_cong[OF assms, of length] by simp
  have "\<forall>k \<in> set (take m xs). tag k = t"
  proof
    fix k assume "k \<in> set (take m xs)"
    then have "k \<in> set xs" by (rule in_set_takeD)
    then have "tag k \<in> set (map tag xs)" by simp
    with assms show "tag k = t" by simp
  qed
  then have "filter (\<lambda>k. tag k = t) (take m xs) = take m xs" by simp
  with \<open>length xs = n\<close> show ?thesis by (simp add: min.commute)
qed

lemma wrapped_nthOfType:
  assumes "wrapped ns wl n"
  shows "nthOfType ''li'' m ns [wl, j] \<longleftrightarrow> j < n \<and> int j + 1 = m"
  using count_same_tag[OF wrapped_tags[OF assms], of "Suc j"]
  by (auto simp: nthOfType_def wrapped_tagAt[OF assms] wrapped_siblings)

lemma nodeAt_descend: "q \<noteq> [] \<Longrightarrow> nodeAt ns (wl # q) = nodeAt (kidsAt ns [wl]) q"
  by (cases q) (auto simp: kidsAt_def nodeAt_Nil)

lemma wrapped_cong:
  assumes "map shape ns' = map shape ns"
  shows "wrapped ns' wl n = wrapped ns wl n"
proof -
  from arg_cong[OF assms, of length] have l: "length ns' = length ns" by simp
  have "wl < length ns \<Longrightarrow> shape (ns' ! wl) = shape (ns ! wl)"
    using arg_cong[OF assms, of "\<lambda>xs. xs ! wl"] l by simp
  with l show ?thesis by (auto simp: wrapped_def)
qed

lemma shape_addClass: "map shape (addClass c ps ns) = map shape ns"
  by (simp add: addClass_def shape_fold_modAt)

lemma shape_removeClass: "map shape (removeClass c ps ns) = map shape ns"
  by (simp add: removeClass_def shape_fold_modAt)

lemma classesAt_addClass:
  "classesAt (addClass c ps ns) q =
     (if q \<in> set ps then map_option (insertClass c) (classesAt ns q) else classesAt ns q)"
  unfolding addClass_def by (rule classesAt_fold_modAt) (simp add: insertClass_def)

lemma classesAt_removeClass:
  "classesAt (removeClass c ps ns) q =
     (if q \<in> set ps then map_option (deleteClass c) (classesAt ns q) else classesAt ns q)"
  unfolding removeClass_def by (rule classesAt_fold_modAt) (simp add: deleteClass_def)

lemma prevAll_mem:
  "q \<in> set (prevAll ps) \<longleftrightarrow>
     (\<exists>p \<in> set ps. p \<noteq> [] \<and> q \<noteq> [] \<and> butlast q = butlast p \<and> last q < last p)"
  (is "?L \<longleftrightarrow> ?R")
proof
  assume ?L
  then show ?R by (auto simp: prevAll_def)
next
  assume ?R
  then obtain p where p: "p \<in> set ps" "p \<noteq> []" "q \<noteq> []" "butlast q = butlast p"
    "last q < last p" by blast
  from p(3,4) have "q = butlast p @ [last q]"
    using append_butlast_last_id[of q] by simp
  with p(5) have "q \<in> set (map (\<lambda>k. butlast p @ [k]) [0..<last p])"
    by auto
  with p(1,2) show ?L
    unfolding prevAll_def by (auto intro!: bexI[of _ p])
qed

lemma nextAll_mem:
  "q \<in> set (nextAll ns ps) \<longleftrightarrow>
     (\<exists>p \<in> set ps. p \<noteq> [] \<and> q \<noteq> [] \<and> butlast q = butlast p \<and> last p < last q \<and>
        last q < length (siblings ns p))"
  (is "?L \<longleftrightarrow> ?R")
proof
  assume ?L
  then show ?R by (auto simp: nextAll_def)
next
  assume ?R
  then obtain p where p: "p \<in> set ps" "p \<noteq> []" "q \<noteq> []" "butlast q = butlast p"
    "last p < last q" "last q < length (siblings ns p)" by blast
  from p(3,4) have "q = butlast p @ [last q]"
    using append_butlast_last_id[of q] by simp
  with p(5,6) have
    "q \<in> set (map (\<lambda>k. butlast p @ [k]) [Suc (last p)..<length (siblings ns p)])"
    by auto
  with p(1,2) show ?L
    unfolding nextAll_def by (auto intro!: bexI[of _ p])
qed

lemma path2: "p \<noteq> [] \<Longrightarrow> butlast p = [wl] \<Longrightarrow> p = [wl, last p]"
  using append_butlast_last_id[of p] by simp

lemma only_star:
  assumes S: "\<And>l. [wl, l] \<in> set S \<longleftrightarrow> l = j"
    and p: "p \<in> set S" "p \<noteq> []" "butlast p = [wl]"
  shows "p = [wl, j]"
proof -
  from path2[OF p(2,3)] have e: "p = [wl, last p]" .
  with p(1) have "[wl, last p] \<in> set S" by simp
  then have "last p = j" by (simp only: S)
  with e show ?thesis by simp
qed

lemma prev_or_self_mem:
  assumes S: "\<And>l. [wl, l] \<in> set S \<longleftrightarrow> l = j"
  shows "[wl, k] \<in> set (add (prevAll S) S) \<longleftrightarrow> k \<le> j"
proof -
  have "[wl, k] \<in> set (prevAll S) \<longleftrightarrow> k < j"
  proof
    assume "[wl, k] \<in> set (prevAll S)"
    then obtain p where p: "p \<in> set S" "p \<noteq> []" "butlast p = [wl]" "k < last p"
      unfolding prevAll_mem by auto
    from only_star[OF S p(1,2,3)] p(4) show "k < j" by simp
  next
    assume "k < j"
    moreover have "[wl, j] \<in> set S" by (simp only: S)
    ultimately have "\<exists>p \<in> set S. p \<noteq> [] \<and> [wl, k] \<noteq> [] \<and> butlast [wl, k] = butlast p \<and>
        last [wl, k] < last p"
      by (intro bexI[of _ "[wl, j]"]) simp_all
    then show "[wl, k] \<in> set (prevAll S)"
      by (simp only: prevAll_mem)
  qed
  moreover have "[wl, k] \<in> set S \<longleftrightarrow> k = j" by (simp only: S)
  ultimately show ?thesis by (auto simp: add_def)
qed

lemma kid_nodeAt:
  "nodeAt c [wl, k] =
     (if k < length (kidsAt c [wl]) then Some (kidsAt c [wl] ! k) else None)"
  by (simp add: kidsAt_def)

lemma kid_classesAt:
  "classesAt c [wl, k] =
     (if k < length (kidsAt c [wl]) then Some (classes (kidsAt c [wl] ! k)) else None)"
  unfolding classesAt_def kid_nodeAt by simp

lemma kid_tagAt:
  "tagAt c [wl, k] =
     (if k < length (kidsAt c [wl]) then Some (tag (kidsAt c [wl] ! k)) else None)"
  unfolding tagAt_def kid_nodeAt by simp

lemma length_kidsAt_cong:
  assumes "map shape c' = map shape c"
  shows "length (kidsAt c' r) = length (kidsAt c r)"
proof -
  have "map shape (kidsAt c' r) = map shape (kidsAt c r)"
    by (simp add: kidsAt_shape[symmetric] assms)
  then show ?thesis by (rule map_eq_imp_length_eq)
qed

lemma tagAt_cong:
  assumes "map shape c' = map shape c"
  shows "tagAt c' p = tagAt c p"
  using tagAt_shape[of c' p] tagAt_shape[of c p] by (simp add: assms)

lemma next_mem:
  assumes S: "\<And>l. [wl, l] \<in> set S \<longleftrightarrow> l = j"
  shows "[wl, k] \<in> set (nextAll c1 S) \<longleftrightarrow> j < k \<and> k < length (kidsAt c1 [wl])"
proof
  assume "[wl, k] \<in> set (nextAll c1 S)"
  then obtain p where p: "p \<in> set S" "p \<noteq> []" "butlast p = [wl]" "last p < k"
    "k < length (siblings c1 p)"
    unfolding nextAll_mem by auto
  from only_star[OF S p(1,2,3)] have "p = [wl, j]" .
  with p(4,5) show "j < k \<and> k < length (kidsAt c1 [wl])"
    by (simp add: wrapped_siblings)
next
  assume "j < k \<and> k < length (kidsAt c1 [wl])"
  moreover have "[wl, j] \<in> set S" by (simp only: S)
  ultimately have "\<exists>p \<in> set S. p \<noteq> [] \<and> [wl, k] \<noteq> [] \<and> butlast [wl, k] = butlast p \<and>
      last p < last [wl, k] \<and> last [wl, k] < length (siblings c1 p)"
    by (intro bexI[of _ "[wl, j]"]) (simp_all add: wrapped_siblings)
  then show "[wl, k] \<in> set (nextAll c1 S)"
    by (simp only: nextAll_mem)
qed

lemma hasClass_insert: "c \<in> set (insertClass c cs)"
  by (simp add: insertClass_def)

lemma hasClass_delete: "c \<notin> set (deleteClass c cs)"
  by (simp add: deleteClass_def)

lemma select_exact:
  assumes S: "\<And>l. [wl, l] \<in> set S \<longleftrightarrow> l = j"
    and c1: "c1 = addClass ''selected'' (add (prevAll S) S) c"
    and c2: "c2 = removeClass ''selected'' (nextAll c1 S) c1"
  shows "classesAt c2 [wl, k] =
     map_option (if k \<le> j then insertClass ''selected'' else deleteClass ''selected'')
       (classesAt c [wl, k])"
proof -
  have l1: "length (kidsAt c1 [wl]) = length (kidsAt c [wl])"
    by (rule length_kidsAt_cong) (simp add: c1 shape_addClass)
  note m1 = prev_or_self_mem[of wl S j k, OF S]
  note m2 = next_mem[of wl S j k c1, OF S]
  have e2: "classesAt c2 [wl, k] =
      (if j < k \<and> k < length (kidsAt c [wl])
       then map_option (deleteClass ''selected'') (classesAt c1 [wl, k])
       else classesAt c1 [wl, k])"
    unfolding c2 classesAt_removeClass m2 l1 ..
  have e1: "classesAt c1 [wl, k] =
      (if k \<le> j then map_option (insertClass ''selected'') (classesAt c [wl, k])
       else classesAt c [wl, k])"
    unfolding c1 classesAt_addClass m1 ..
  show ?thesis
  proof (cases "k < length (kidsAt c [wl])")
    case True
    then show ?thesis unfolding e2 e1 by auto
  next
    case False
    then have "classesAt c [wl, k] = None" by (simp only: kid_classesAt if_False)
    then show ?thesis unfolding e2 e1 by simp
  qed
qed

lemma select_upto:
  assumes j: "j < length (kidsAt c [wl])"
    and S: "\<And>l. [wl, l] \<in> set S \<longleftrightarrow> l = j"
    and c1: "c1 = addClass ''selected'' (add (prevAll S) S) c"
    and c2: "c2 = removeClass ''selected'' (nextAll c1 S) c1"
  shows "hasClass ''selected'' c2 [wl, k] \<longleftrightarrow> k \<le> j"
proof (cases "k < length (kidsAt c [wl])")
  case True
  then have "classesAt c [wl, k] = Some (classes (kidsAt c [wl] ! k))"
    by (simp only: kid_classesAt if_True)
  then show ?thesis
    unfolding hasClass_def select_exact[OF S c1 c2]
    by (simp add: hasClass_insert hasClass_delete)
next
  case False
  then have "classesAt c [wl, k] = None" by (simp only: kid_classesAt if_False)
  with False j show ?thesis
    unfolding hasClass_def select_exact[OF S c1 c2] by simp
qed

lemma select_none:
  assumes S: "\<And>l. [wl, l] \<notin> set S"
    and c1: "c1 = addClass ''selected'' (add (prevAll S) S) c"
    and c2: "c2 = removeClass ''selected'' (nextAll c1 S) c1"
  shows "classesAt c2 [wl, k] = classesAt c [wl, k]"
proof -
  have a: "[wl, k] \<notin> set (prevAll S)"
  proof
    assume "[wl, k] \<in> set (prevAll S)"
    then obtain p where p: "p \<in> set S" "p \<noteq> []" "butlast p = [wl]"
      unfolding prevAll_mem by auto
    from path2[OF p(2,3)] p(1) have "[wl, last p] \<in> set S" by simp
    with S show False by simp
  qed
  have b: "[wl, k] \<notin> set (nextAll c1 S)"
  proof
    assume "[wl, k] \<in> set (nextAll c1 S)"
    then obtain p where p: "p \<in> set S" "p \<noteq> []" "butlast p = [wl]"
      unfolding nextAll_mem by auto
    from path2[OF p(2,3)] p(1) have "[wl, last p] \<in> set S" by simp
    with S show False by simp
  qed
  have "[wl, k] \<notin> set (add (prevAll S) S)"
    using a S by (simp add: add_def)
  with b show ?thesis
    unfolding c2 c1 classesAt_removeClass classesAt_addClass by simp
qed

lemma tagAt_Cons_0: "q \<noteq> [] \<Longrightarrow> tagAt (n # ns) (0 # q) = tagAt (kids n) q"
  by (simp add: tagAt_def nodeAt_Cons_0)

lemma tagAt_Cons_Suc: "tagAt (n # ns) (Suc j # q) = tagAt ns (j # q)"
  by (simp only: tagAt_def nodeAt_Cons_Suc)

lemma pathsFrom_nonempty: "p \<in> set (pathsFrom i ns) \<Longrightarrow> p \<noteq> []"
  by (auto simp: pathsFrom_mem)

lemma filter_li_pathsFrom:
  "filter (\<lambda>p. tagAt ns (case p of [] \<Rightarrow> [] | a # q \<Rightarrow> (a - i) # q) = Some ''li'')
     (pathsFrom i ns) = liPaths i ns"
proof (induction i ns rule: pathsFrom.induct)
  case (1 i)
  show ?case by simp
next
  case (2 i t c ks ns)
  define P where
    "P = (\<lambda>p. tagAt (Elem t c ks # ns) (case p of [] \<Rightarrow> [] | a # q \<Rightarrow> (a - i) # q) = Some ''li'')"
  have a: "P [i] \<longleftrightarrow> t = ''li''"
    by (simp add: P_def tagAt_def)
  have b: "filter (P \<circ> (#) i) (pathsFrom 0 ks) = liPaths 0 ks"
  proof -
    have "filter (P \<circ> (#) i) (pathsFrom 0 ks) =
          filter (\<lambda>p. tagAt ks (case p of [] \<Rightarrow> [] | a # q \<Rightarrow> (a - 0) # q) = Some ''li'')
            (pathsFrom 0 ks)"
    proof (rule filter_cong[OF refl])
      fix q assume "q \<in> set (pathsFrom 0 ks)"
      then have "q \<noteq> []" by (rule pathsFrom_nonempty)
      then obtain a r where q: "q = a # r" by (cases q) auto
      then show "(P \<circ> (#) i) q \<longleftrightarrow>
          tagAt ks (case q of [] \<Rightarrow> [] | a # q \<Rightarrow> (a - 0) # q) = Some ''li''"
        by (simp add: P_def tagAt_Cons_0)
    qed
    with "2.IH"(1) show ?thesis by simp
  qed
  have c: "filter P (pathsFrom (Suc i) ns) = liPaths (Suc i) ns"
  proof -
    have "filter P (pathsFrom (Suc i) ns) =
          filter (\<lambda>p. tagAt ns (case p of [] \<Rightarrow> [] | a # q \<Rightarrow> (a - Suc i) # q) = Some ''li'')
            (pathsFrom (Suc i) ns)"
    proof (rule filter_cong[OF refl])
      fix p assume "p \<in> set (pathsFrom (Suc i) ns)"
      then obtain j q where p: "p = (Suc i + j) # q" by (auto simp: pathsFrom_mem)
      have "Suc i + j - i = Suc j" by simp
      then show "P p \<longleftrightarrow>
          tagAt ns (case p of [] \<Rightarrow> [] | a # q \<Rightarrow> (a - Suc i) # q) = Some ''li''"
        unfolding p P_def by (simp add: tagAt_Cons_Suc del: nodeAt.simps)
    qed
    with "2.IH"(2) show ?thesis by simp
  qed
  have "filter P (pathsFrom i (Elem t c ks # ns)) = liPaths i (Elem t c ks # ns)"
    using a b c by (simp add: filter_map)
  then show ?case unfolding P_def .
qed

lemma find_li_in_list:
  "find_in [wl] (isTag ''li'') c = map ((#) wl) (liPaths 0 (kidsAt c [wl]))"
proof -
  have "filter (isTag ''li'' c \<circ> (#) wl) (pathsFrom 0 (kidsAt c [wl])) =
        filter (\<lambda>p. tagAt (kidsAt c [wl]) (case p of [] \<Rightarrow> [] | a # q \<Rightarrow> (a - 0) # q) = Some ''li'')
          (pathsFrom 0 (kidsAt c [wl]))"
  proof (rule filter_cong[OF refl])
    fix q assume "q \<in> set (pathsFrom 0 (kidsAt c [wl]))"
    then have "q \<noteq> []" by (rule pathsFrom_nonempty)
    then obtain a r where q: "q = a # r" by (cases q) auto
    have "nodeAt c (wl # a # r) = nodeAt (kidsAt c [wl]) (a # r)"
      by (rule nodeAt_descend) simp
    then show "(isTag ''li'' c \<circ> (#) wl) q \<longleftrightarrow>
        tagAt (kidsAt c [wl]) (case q of [] \<Rightarrow> [] | a # q \<Rightarrow> (a - 0) # q) = Some ''li''"
      unfolding q by (simp add: isTag_def tagAt_def del: nodeAt.simps)
  qed
  also have "\<dots> = liPaths 0 (kidsAt c [wl])"
    by (rule filter_li_pathsFrom)
  finally have "filter (isTag ''li'' c \<circ> (#) wl) (pathsFrom 0 (kidsAt c [wl])) =
      liPaths 0 (kidsAt c [wl])" .
  moreover have "(@) [wl] = (#) wl" by (rule ext) simp
  ultimately show ?thesis
    by (simp add: find_in_def filter_map)
qed

lemma length_liPaths: "length (liPaths i ns) = sum_list (map liCount ns)"
  by (induction i ns rule: liPaths.induct) auto

lemma indexOf_least: "indexOf xs x < 0 \<Longrightarrow> indexOf xs x = - 1"
  by (induction xs) (auto simp: Let_def split: if_splits)

lemma indexOf_append:
  "x \<notin> set xs \<Longrightarrow>
   indexOf (xs @ ys) x = (if indexOf ys x < 0 then - 1 else int (length xs) + indexOf ys x)"
  by (induction xs) (auto simp: Let_def dest: indexOf_least)

lemma indexOf_map_inj:
  assumes "inj f"
  shows "indexOf (map f xs) (f x) = indexOf xs x"
  using assms by (induction xs) (auto simp: Let_def dest: injD)

lemma indexOf_liPaths:
  "j < length ns \<Longrightarrow> tag (ns ! j) = ''li'' \<Longrightarrow>
   indexOf (liPaths i ns) [i + j] = int (sum_list (map liCount (take j ns)))"
proof (induction ns arbitrary: i j)
  case Nil
  then show ?case by simp
next
  case (Cons n ns)
  obtain t c ks where n: "n = Elem t c ks" by (cases n)
  show ?case
  proof (cases j)
    case 0
    with Cons.prems n show ?thesis by simp
  next
    case (Suc j')
    let ?xs = "(if t = ''li'' then [[i]] else []) @ map ((#) i) (liPaths 0 ks)"
    from Cons.prems Suc have j': "j' < length ns" "tag (ns ! j') = ''li''" by simp_all
    from Cons.IH[OF j', of "Suc i"]
    have ih: "indexOf (liPaths (Suc i) ns) [i + j] = int (sum_list (map liCount (take j' ns)))"
      by (simp add: Suc)
    have notin: "[i + j] \<notin> set ?xs" by (auto simp: Suc)
    have len: "length ?xs = liCount n" by (simp add: n length_liPaths)
    have "liPaths i (n # ns) = ?xs @ liPaths (Suc i) ns" by (simp add: n)
    then have "indexOf (liPaths i (n # ns)) [i + j] =
        int (liCount n) + int (sum_list (map liCount (take j' ns)))"
      using indexOf_append[OF notin, of "liPaths (Suc i) ns"] ih len by simp
    then show ?thesis by (simp add: Suc)
  qed
qed

lemma index_in_list:
  assumes "j < length (kidsAt c [wl])" and "tag (kidsAt c [wl] ! j) = ''li''"
  shows "indexOf (find_in [wl] (isTag ''li'') c) [wl, j] =
         int (sum_list (map liCount (take j (kidsAt c [wl]))))"
proof -
  have "inj ((#) wl)" by (simp add: inj_def)
  from indexOf_map_inj[OF this, of "liPaths 0 (kidsAt c [wl])" "[j]"]
    indexOf_liPaths[OF assms, of 0]
  show ?thesis by (simp add: find_li_in_list)
qed

lemma liCount_shape: "liCount (shape n) = liCount n"
  by (induction n rule: liCount.induct) (simp add: comp_def cong: map_cong)

lemma sameWidget_refl: "sameWidget w w"
  by (simp add: sameWidget_def)

lemma sameWidget_trans: "sameWidget w s \<Longrightarrow> sameWidget s r \<Longrightarrow> sameWidget w r"
  by (simp add: sameWidget_def)

lemma sameWidget_length:
  assumes "sameWidget w s"
  shows "length (content s) = length (content w)"
  using map_eq_imp_length_eq[of shape "content s" shape "content w"] assms
  by (simp add: sameWidget_def)

lemma sameWidget_wrapperIndex:
  assumes "sameWidget w s"
  shows "wrapperIndex s = wrapperIndex w"
  by (simp add: wrapperIndex_def sameWidget_length[OF assms])

lemma sameWidget_star:
  assumes "sameWidget w s"
  shows "star s i = star w i"
  by (simp add: star_def sameWidget_wrapperIndex[OF assms])

lemma sameWidget_initialized:
  assumes "initialized w" "sameWidget w s"
  shows "initialized s"
proof -
  from assms(1) obtain thiz where d: "data w = Some thiz"
    by (cases "data w") (simp_all add: initialized_def)
  from assms(2) have sc: "map_option starCount (data s) = Some (starCount thiz)"
    and hs: "handlers s = handlers w"
    and sh: "map shape (content s) = map shape (content w)"
    by (simp_all add: sameWidget_def d)
  from sc obtain thiz' where d': "data s = Some thiz'" "starCount thiz' = starCount thiz"
    by (cases "data s") simp_all
  note wi = sameWidget_wrapperIndex[OF assms(2)]
  have "wrapped (content s) (wrapperIndex w) (nat (starCount thiz)) =
        wrapped (content w) (wrapperIndex w) (nat (starCount thiz))"
    using sh by (rule wrapped_cong)
  with assms(1) show ?thesis
    by (simp add: initialized_def d d' wi hs)
qed

lemma sameWidget_setCount: "sameWidget w (setCount c w)"
  by (cases "data w") (simp_all add: sameWidget_def setCount_def)

lemma sameWidget_content:
  "map shape c = map shape (content w) \<Longrightarrow> sameWidget w (w\<lparr>content := c\<rparr>)"
  by (simp add: sameWidget_def)

lemma clickHandler_same: "sameWidget w (clickHandler wl this w)"
proof -
  have "sameWidget w (w\<lparr>content := removeClass ''selected''
          (nextAll (addClass ''selected'' (add (prevAll [this]) [this]) (content w)) [this])
          (addClass ''selected'' (add (prevAll [this]) [this]) (content w))\<rparr>)"
    by (rule sameWidget_content) (simp add: shape_removeClass shape_addClass)
  then show ?thesis
    unfolding clickHandler_def Let_def
    by (rule sameWidget_trans) (rule sameWidget_setCount)
qed

lemma get_setCount: "data w \<noteq> None \<Longrightarrow> get (setCount c w) = c"
  by (auto simp: get_def setCount_def)

lemma content_setCount: "content (setCount c w) = content w"
  by (simp add: setCount_def)

lemma sameWidget_data:
  assumes "sameWidget w s"
  shows "data s \<noteq> None \<longleftrightarrow> data w \<noteq> None"
  using assms by (cases "data s"; cases "data w") (simp_all add: sameWidget_def)

lemma mouseoverHandler_same: "sameWidget w (mouseoverHandler this w)"
  unfolding mouseoverHandler_def
  by (rule sameWidget_content) (simp add: shape_addClass)

lemma mouseoutHandler_same: "sameWidget w (mouseoutHandler this w)"
  unfolding mouseoutHandler_def Let_def
  by (rule sameWidget_content) (simp add: shape_removeClass)

lemma handler_same: "sameWidget w (handler h this w)"
proof (cases h)
  case (Pair ev wl)
  then show ?thesis
    by (cases ev) (simp_all add: mouseoverHandler_same mouseoutHandler_same clickHandler_same)
qed

lemma fold_handlers_same:
  "sameWidget w (fold (\<lambda>h s. if fst h = ev then handler h this s else s) hs w)"
proof (induction hs arbitrary: w)
  case Nil
  show ?case by (simp add: sameWidget_refl)
next
  case (Cons h hs)
  show ?case
  proof (cases "fst h = ev")
    case True
    have "sameWidget (handler h this w)
            (fold (\<lambda>h s. if fst h = ev then handler h this s else s) hs (handler h this w))"
      by (rule Cons.IH)
    with handler_same[of w h this] True show ?thesis
      by (auto intro: sameWidget_trans)
  next
    case False
    with Cons.IH[of w] show ?thesis by simp
  qed
qed

lemma runHandlers_same: "sameWidget w (runHandlers ev this w)"
  unfolding runHandlers_def by (rule fold_handlers_same)

lemma wrapped_wrapper_tag:
  assumes "wrapped ns wl n"
  shows "tagAt ns [wl] = Some ''ul''"
proof -
  from assms have "tag (shape (ns ! wl)) = ''ul''" "wl < length ns"
    by (simp_all add: wrapped_def)
  then show ?thesis by (simp add: tagAt_def tag_shape)
qed

lemma ancestorsOrSelf_2: "ancestorsOrSelf [a, b] = [[a, b], [a]]"
  by (simp add: ancestorsOrSelf_def upt_rec)

lemma set_concat_replicate:
  "set (concat (replicate n xs)) = (if n = 0 then {} else set xs)"
  by (induction n) auto

lemma initializedD:
  assumes "initialized w" "data w = Some thiz"
  shows "wrapped (content w) (wrapperIndex w) (nat (starCount thiz))"
    and "handlers w = concat (replicate (nat (starCount thiz))
           [(Mouseover, wrapperIndex w), (Mouseout, wrapperIndex w), (Click, wrapperIndex w)])"
  using assms by (simp_all add: initialized_def)

lemma star_index:
  assumes "1 \<le> i" "i \<le> sc"
  shows "nat (i - 1) < nat sc" "int (nat (i - 1)) + 1 = i"
  using assms by simp_all

lemma kids_shape_cong:
  assumes "map shape c' = map shape c"
  shows "map shape (kidsAt c' r) = map shape (kidsAt c r)"
  by (simp add: kidsAt_shape[symmetric] assms)

lemma kids_tag_cong:
  assumes "map shape c' = map shape c"
  shows "map tag (kidsAt c' r) = map tag (kidsAt c r)"
proof -
  have "map tag (map shape (kidsAt c' r)) = map tag (map shape (kidsAt c r))"
    by (simp only: kids_shape_cong[OF assms])
  then show ?thesis by (simp add: comp_def tag_shape)
qed

lemma kids_liCount_cong:
  assumes "map shape c' = map shape c"
  shows "map liCount (kidsAt c' r) = map liCount (kidsAt c r)"
proof -
  have "map liCount (map shape (kidsAt c' r)) = map liCount (map shape (kidsAt c r))"
    by (simp only: kids_shape_cong[OF assms])
  then show ?thesis by (simp add: comp_def liCount_shape)
qed

lemma rank_cong:
  assumes "map shape c' = map shape c"
  shows "sum_list (map liCount (take j (kidsAt c' r))) =
         sum_list (map liCount (take j (kidsAt c r)))"
  using arg_cong[OF kids_liCount_cong[OF assms, of r], of "\<lambda>xs. sum_list (take j xs)"]
  by (simp add: take_map)

lemma kid_tag_cong:
  assumes "map shape c' = map shape c" and "j < length (kidsAt c [wl])"
  shows "tag (kidsAt c' [wl] ! j) = tag (kidsAt c [wl] ! j)"
proof -
  from assms(2) have "j < length (kidsAt c' [wl])"
    by (simp add: length_kidsAt_cong[OF assms(1)])
  with assms(2) arg_cong[OF kids_tag_cong[OF assms(1), of "[wl]"], of "\<lambda>xs. xs ! j"]
  show ?thesis by simp
qed

lemma clickHandler_post:
  assumes j: "j < length (kidsAt (content w) [wl])"
    and li: "tag (kidsAt (content w) [wl] ! j) = ''li''"
    and d: "data w \<noteq> None"
  shows "classesAt (content (clickHandler wl [wl, j] w)) [wl, k] =
           map_option (if k \<le> j then insertClass ''selected'' else deleteClass ''selected'')
             (classesAt (content w) [wl, k])"
    and "get (clickHandler wl [wl, j] w) =
           Some (int (sum_list (map liCount (take j (kidsAt (content w) [wl])))) + 1)"
proof -
  define c1 where "c1 = addClass ''selected'' (add (prevAll [[wl, j]]) [[wl, j]]) (content w)"
  define c2 where "c2 = removeClass ''selected'' (nextAll c1 [[wl, j]]) c1"
  have S: "\<And>l. [wl, l] \<in> set [[wl, j]] \<longleftrightarrow> l = j" by simp
  have e: "clickHandler wl [wl, j] w =
        setCount (Some (indexOf (find_in [wl] (isTag ''li'') c2) [wl, j] + 1)) (w\<lparr>content := c2\<rparr>)"
    by (simp add: clickHandler_def c1_def c2_def Let_def)
  have sh: "map shape c2 = map shape (content w)"
    by (simp add: c2_def c1_def shape_removeClass shape_addClass)
  have j2: "j < length (kidsAt c2 [wl])"
    using j by (simp add: length_kidsAt_cong[OF sh])
  have li2: "tag (kidsAt c2 [wl] ! j) = ''li''"
    using li by (simp add: kid_tag_cong[OF sh j])
  show "classesAt (content (clickHandler wl [wl, j] w)) [wl, k] =
           map_option (if k \<le> j then insertClass ''selected'' else deleteClass ''selected'')
             (classesAt (content w) [wl, k])"
    unfolding e content_setCount
    using select_exact[OF S c1_def c2_def, of k] by simp
  have "data (w\<lparr>content := c2\<rparr>) \<noteq> None" using d by simp
  from get_setCount[OF this]
  show "get (clickHandler wl [wl, j] w) =
           Some (int (sum_list (map liCount (take j (kidsAt (content w) [wl])))) + 1)"
    unfolding e by (simp only: index_in_list[OF j2 li2] rank_cong[OF sh])
qed

lemma sameWidget_shape: "sameWidget w s \<Longrightarrow> map shape (content s) = map shape (content w)"
  by (simp add: sameWidget_def)

lemma fold_click:
  assumes hs: "\<forall>h \<in> set hs. snd h = wl"
    and j: "j < length (kidsAt c0 [wl])" and li: "tag (kidsAt c0 [wl] ! j) = ''li''"
    and sh: "map shape (content s) = map shape c0" and d: "data s \<noteq> None"
    and pre: "((\<forall>k. classesAt (content s) [wl, k] = classesAt c0 [wl, k]) \<and>
                (\<exists>h \<in> set hs. fst h = Click)) \<or>
              ((\<forall>k. classesAt (content s) [wl, k] =
                    map_option (if k \<le> j then insertClass ''selected''
                                else deleteClass ''selected'') (classesAt c0 [wl, k])) \<and>
               get s = Some (int (sum_list (map liCount (take j (kidsAt c0 [wl])))) + 1))"
  shows "(\<forall>k. classesAt
            (content (fold (\<lambda>h s. if fst h = Click then handler h [wl, j] s else s) hs s))
            [wl, k] =
          map_option (if k \<le> j then insertClass ''selected'' else deleteClass ''selected'')
            (classesAt c0 [wl, k])) \<and>
         get (fold (\<lambda>h s. if fst h = Click then handler h [wl, j] s else s) hs s) =
           Some (int (sum_list (map liCount (take j (kidsAt c0 [wl])))) + 1)"
  using hs sh d pre
proof (induction hs arbitrary: s)
  case Nil
  then show ?case by simp
next
  case (Cons h hs)
  let ?F = "\<lambda>h s. if fst h = Click then handler h [wl, j] s else s"
  let ?mark = "\<lambda>k. if k \<le> j then insertClass ''selected'' else deleteClass ''selected''"
  let ?rank = "int (sum_list (map liCount (take j (kidsAt c0 [wl])))) + 1"
  from Cons.prems(1) have hs': "\<forall>h \<in> set hs. snd h = wl" and hwl: "snd h = wl" by simp_all
  show ?case
  proof (cases "fst h = Click")
    case True
    with hwl have h: "h = (Click, wl)" by (cases h) simp
    define s1 where "s1 = clickHandler wl [wl, j] s"
    have same: "sameWidget s s1" unfolding s1_def by (rule clickHandler_same)
    have sh1: "map shape (content s1) = map shape c0"
      using sameWidget_shape[OF same] Cons.prems(2) by simp
    have d1: "data s1 \<noteq> None"
      using Cons.prems(3) sameWidget_data[OF same] by blast
    have js: "j < length (kidsAt (content s) [wl])"
      using j by (simp add: length_kidsAt_cong[OF Cons.prems(2)])
    have lis: "tag (kidsAt (content s) [wl] ! j) = ''li''"
      using li by (simp add: kid_tag_cong[OF Cons.prems(2) j])
    note post = clickHandler_post[OF js lis Cons.prems(3)]
    have cls: "classesAt (content s1) [wl, k] = map_option (?mark k) (classesAt c0 [wl, k])" for k
    proof -
      have "classesAt (content s) [wl, k] = classesAt c0 [wl, k] \<or>
            classesAt (content s) [wl, k] = map_option (?mark k) (classesAt c0 [wl, k])"
        using Cons.prems(4) by blast
      then show ?thesis
      proof
        assume "classesAt (content s) [wl, k] = classesAt c0 [wl, k]"
        then show ?thesis unfolding s1_def post(1) by simp
      next
        assume a: "classesAt (content s) [wl, k] = map_option (?mark k) (classesAt c0 [wl, k])"
        show ?thesis
          unfolding s1_def post(1) a
          by (cases "classesAt c0 [wl, k]") (simp_all add: insertClass_def deleteClass_def)
      qed
    qed
    have g: "get s1 = Some ?rank"
      unfolding s1_def post(2) by (simp only: rank_cong[OF Cons.prems(2)])
    have f: "fold ?F (h # hs) s = fold ?F hs s1"
      by (simp add: h s1_def)
    from cls g have "(\<forall>k. classesAt (content s1) [wl, k] = classesAt c0 [wl, k]) \<and>
          (\<exists>h \<in> set hs. fst h = Click) \<or>
        (\<forall>k. classesAt (content s1) [wl, k] = map_option (?mark k) (classesAt c0 [wl, k])) \<and>
          get s1 = Some ?rank"
      by blast
    from Cons.IH[OF hs' sh1 d1 this] show ?thesis
      unfolding f .
  next
    case False
    then have f: "fold ?F (h # hs) s = fold ?F hs s" by simp
    from False have "(\<exists>h' \<in> set (h # hs). fst h' = Click) \<longleftrightarrow> (\<exists>h' \<in> set hs. fst h' = Click)"
      by auto
    with Cons.prems(4) have "(\<forall>k. classesAt (content s) [wl, k] = classesAt c0 [wl, k]) \<and>
          (\<exists>h \<in> set hs. fst h = Click) \<or>
        (\<forall>k. classesAt (content s) [wl, k] = map_option (?mark k) (classesAt c0 [wl, k])) \<and>
          get s = Some ?rank"
      by blast
    from Cons.IH[OF hs' Cons.prems(2,3) this] show ?thesis
      unfolding f .
  qed
qed

lemma trigger_star:
  assumes li: "tagAt (content w) [wl, j] = Some ''li''"
    and ul: "tagAt (content w) [wl] \<noteq> Some ''li''"
  shows "trigger ev [wl, j] w = runHandlers ev [wl, j] w"
proof -
  have a: "isTag ''li'' (content w) [wl, j]"
    using li by (simp only: isTag_def)
  have same: "sameWidget w (runHandlers ev [wl, j] w)"
    by (rule runHandlers_same)
  have "tagAt (content (runHandlers ev [wl, j] w)) [wl] = tagAt (content w) [wl]"
    by (rule tagAt_cong[OF sameWidget_shape[OF same]])
  with ul have "\<not> isTag ''li'' (content (runHandlers ev [wl, j] w)) [wl]"
    by (simp only: isTag_def) simp
  with a show ?thesis
    by (simp add: trigger_def ancestorsOrSelf_2 del: nodeAt.simps)
qed

lemma liveD:
  assumes "live w" "data w = Some thiz"
  shows "isTag ''ul'' (content w) [wrapperIndex w]"
    and "handlers w = concat (replicate (nat (starCount thiz))
           [(Mouseover, wrapperIndex w), (Mouseout, wrapperIndex w), (Click, wrapperIndex w)])"
  using assms by (simp_all add: live_def)

lemma initialized_live:
  assumes "initialized w"
  shows "live w"
proof -
  from assms obtain thiz where d: "data w = Some thiz"
    by (cases "data w") (simp_all add: initialized_def)
  note i = initializedD[OF assms d]
  from wrapped_wrapper_tag[OF i(1)] i(2) d show ?thesis
    by (simp add: live_def isTag_def del: nodeAt.simps)
qed

lemma click_live:
  assumes lv: "live w" and d: "data w = Some thiz" and sc: "0 < starCount thiz"
    and i: "1 \<le> i" "i \<le> int (length (stars w))"
    and li: "tag (stars w ! nat (i - 1)) = ''li''"
  shows "sameWidget w (trigger Click (star w i) w)"
    and "classesAt (content (trigger Click (star w i) w)) [wrapperIndex w, k] =
           map_option (if k \<le> nat (i - 1) then insertClass ''selected''
                       else deleteClass ''selected'')
             (classesAt (content w) [wrapperIndex w, k])"
    and "get (trigger Click (star w i) w) =
           Some (int (sum_list (map liCount (take (nat (i - 1)) (stars w)))) + 1)"
proof -
  let ?wl = "wrapperIndex w" and ?j = "nat (i - 1)"
  note ul = liveD(1)[OF lv d] and hs = liveD(2)[OF lv d]
  from i have j: "?j < length (kidsAt (content w) [?wl])"
    by (simp add: stars_def)
  from li have lij: "tag (kidsAt (content w) [?wl] ! ?j) = ''li''"
    by (simp only: stars_def)
  from j lij have tli: "tagAt (content w) [?wl, ?j] = Some ''li''"
    by (simp only: kid_tagAt if_True)
  from ul have tul: "tagAt (content w) [?wl] \<noteq> Some ''li''"
    by (simp add: isTag_def del: nodeAt.simps)
  have t: "trigger Click (star w i) w = runHandlers Click [?wl, ?j] w"
    unfolding star_def by (rule trigger_star[OF tli tul])
  show "sameWidget w (trigger Click (star w i) w)"
    unfolding t by (rule runHandlers_same)
  have n0: "nat (starCount thiz) \<noteq> 0" using sc by simp
  have a: "\<forall>h \<in> set (handlers w). snd h = ?wl"
    unfolding hs set_concat_replicate using n0 by simp
  have b: "\<exists>h \<in> set (handlers w). fst h = Click"
    unfolding hs set_concat_replicate using n0 by simp
  have dn: "data w \<noteq> None" using d by simp
  from b have pre: "((\<forall>k. classesAt (content w) [?wl, k] = classesAt (content w) [?wl, k]) \<and>
                (\<exists>h \<in> set (handlers w). fst h = Click)) \<or>
              ((\<forall>k. classesAt (content w) [?wl, k] =
                    map_option (if k \<le> ?j then insertClass ''selected''
                                else deleteClass ''selected'') (classesAt (content w) [?wl, k])) \<and>
               get w = Some (int (sum_list (map liCount (take ?j (kidsAt (content w) [?wl])))) + 1))"
    by simp
  note f = fold_click[OF a j lij refl dn pre, folded runHandlers_def]
  from f show "classesAt (content (trigger Click (star w i) w)) [?wl, k] =
           map_option (if k \<le> ?j then insertClass ''selected'' else deleteClass ''selected'')
             (classesAt (content w) [?wl, k])"
    unfolding t by blast
  from f show "get (trigger Click (star w i) w) =
           Some (int (sum_list (map liCount (take ?j (stars w)))) + 1)"
    unfolding t stars_def by blast
qed

lemma initialized_stars:
  assumes "initialized w" "data w = Some thiz"
  shows "length (stars w) = nat (starCount thiz)"
    and "map tag (stars w) = replicate (nat (starCount thiz)) ''li''"
    and "map liCount (stars w) = replicate (nat (starCount thiz)) 1"
proof -
  note w = initializedD(1)[OF assms]
  show "length (stars w) = nat (starCount thiz)"
    unfolding stars_def by (rule wrapped_kids(2)[OF w])
  show "map tag (stars w) = replicate (nat (starCount thiz)) ''li''"
    unfolding stars_def by (rule wrapped_tags[OF w])
  have "map liCount (map shape (stars w)) = replicate (nat (starCount thiz)) 1"
    unfolding stars_def wrapped_kids(1)[OF w] by (simp add: starLi_def)
  then show "map liCount (stars w) = replicate (nat (starCount thiz)) 1"
    by (simp add: comp_def liCount_shape)
qed

lemma sum_take_ones: "j \<le> n \<Longrightarrow> sum_list (take j (replicate n (1::nat))) = j"
  by (simp add: sum_list_replicate min_def)

lemma click_star:
  assumes init: "initialized w" and d: "data w = Some thiz"
    and i: "1 \<le> i" "i \<le> starCount thiz"
  shows "sameWidget w (trigger Click (star w i) w)"
    and "hasClass ''selected'' (content (trigger Click (star w i) w)) [wrapperIndex w, k]
           \<longleftrightarrow> k \<le> nat (i - 1)"
    and "get (trigger Click (star w i) w) = Some i"
    and "classesAt (content (trigger Click (star w i) w)) [wrapperIndex w, k] =
           map_option (if k \<le> nat (i - 1) then insertClass ''selected''
                       else deleteClass ''selected'')
             (classesAt (content w) [wrapperIndex w, k])"
proof -
  let ?wl = "wrapperIndex w" and ?j = "nat (i - 1)"
  note st = initialized_stars[OF init d]
  note j = star_index[OF i]
  have sc: "0 < starCount thiz" using i by simp
  have il: "i \<le> int (length (stars w))" using i by (simp add: st(1))
  have "map tag (stars w) ! ?j = ''li''"
    unfolding st(2) using j(1) by simp
  then have li: "tag (stars w ! ?j) = ''li''"
    using j(1) by (simp add: st(1))
  note c = click_live[OF initialized_live[OF init] d sc i(1) il li]
  show "sameWidget w (trigger Click (star w i) w)" by (rule c(1))
  show cls: "classesAt (content (trigger Click (star w i) w)) [?wl, k] =
           map_option (if k \<le> ?j then insertClass ''selected'' else deleteClass ''selected'')
             (classesAt (content w) [?wl, k])"
    by (rule c(2))
  have "?j \<le> nat (starCount thiz)" using j(1) by linarith
  then have "sum_list (map liCount (take ?j (stars w))) = ?j"
    unfolding take_map[symmetric] st(3) by (rule sum_take_ones)
  with c(3) show "get (trigger Click (star w i) w) = Some i"
    using i(1) by simp
  show "hasClass ''selected'' (content (trigger Click (star w i) w)) [?wl, k] \<longleftrightarrow> k \<le> ?j"
  proof (cases "k < length (kidsAt (content w) [?wl])")
    case True
    then have "classesAt (content w) [?wl, k] = Some (classes (kidsAt (content w) [?wl] ! k))"
      by (simp only: kid_classesAt if_True)
    then show ?thesis
      unfolding hasClass_def cls by (simp add: hasClass_insert hasClass_delete)
  next
    case False
    then have "classesAt (content w) [?wl, k] = None" by (simp only: kid_classesAt if_False)
    moreover from False have "\<not> k < nat (starCount thiz)"
      by (simp add: st(1)[unfolded stars_def])
    with j(1) have "\<not> k \<le> ?j" by linarith
    ultimately show ?thesis
      unfolding hasClass_def cls by simp
  qed
qed

lemma selected_star:
  assumes "sameWidget w s" "1 \<le> k"
  shows "selected s k = hasClass ''selected'' (content s) [wrapperIndex w, nat (k - 1)]"
  by (simp add: selected_def star_def sameWidget_wrapperIndex[OF assms(1)])

lemma markStars_same: "sameWidget w (markStars m w)"
proof -
  have "sameWidget w (w\<lparr>content := removeClass ''selected''
      (nextAll (addClass ''selected''
         (add (prevAll (find_in [] (nthOfType ''li'' m) (content w)))
              (find_in [] (nthOfType ''li'' m) (content w))) (content w))
         (find_in [] (nthOfType ''li'' m) (content w)))
      (addClass ''selected''
         (add (prevAll (find_in [] (nthOfType ''li'' m) (content w)))
              (find_in [] (nthOfType ''li'' m) (content w))) (content w))\<rparr>)"
    by (rule sameWidget_content) (simp add: shape_removeClass shape_addClass)
  then show ?thesis
    unfolding markStars_def Let_def
    by (rule sameWidget_trans) (rule sameWidget_setCount)
qed

lemma lastStar_mem:
  assumes "wrapped c wl n"
  shows "[wl, l] \<in> set (find_in [] (nthOfType ''li'' m) c) \<longleftrightarrow> l < n \<and> int l + 1 = m"
  unfolding find_in_root_mem wrapped_nthOfType[OF assms] wrapped_nodeAt[OF assms]
  by auto

lemma markStars_get: "data w \<noteq> None \<Longrightarrow> get (markStars m w) = Some m"
  by (simp add: markStars_def Let_def get_setCount)

lemma markStars_in_range:
  assumes w: "wrapped (content w) wl n" and m: "1 \<le> m" "m \<le> int n"
  shows "hasClass ''selected'' (content (markStars m w)) [wl, k] \<longleftrightarrow> k \<le> nat (m - 1)"
proof -
  define S where "S = find_in [] (nthOfType ''li'' m) (content w)"
  define c1 where "c1 = addClass ''selected'' (add (prevAll S) S) (content w)"
  define c2 where "c2 = removeClass ''selected'' (nextAll c1 S) c1"
  have e: "content (markStars m w) = c2"
    by (simp add: markStars_def Let_def content_setCount c2_def c1_def S_def)
  have j: "nat (m - 1) < length (kidsAt (content w) [wl])"
    using m by (simp add: wrapped_kids(2)[OF w])
  have S: "\<And>l. [wl, l] \<in> set S \<longleftrightarrow> l = nat (m - 1)"
    unfolding S_def lastStar_mem[OF w] using m by auto
  show ?thesis
    unfolding e by (rule select_upto[OF j S c1_def c2_def])
qed

lemma markStars_out_of_range:
  assumes w: "wrapped (content w) wl n" and m: "m < 1 \<or> int n < m"
  shows "classesAt (content (markStars m w)) [wl, k] = classesAt (content w) [wl, k]"
proof -
  define S where "S = find_in [] (nthOfType ''li'' m) (content w)"
  define c1 where "c1 = addClass ''selected'' (add (prevAll S) S) (content w)"
  define c2 where "c2 = removeClass ''selected'' (nextAll c1 S) c1"
  have e: "content (markStars m w) = c2"
    by (simp add: markStars_def Let_def content_setCount c2_def c1_def S_def)
  have S: "\<And>l. [wl, l] \<notin> set S"
    unfolding S_def lastStar_mem[OF w] using m by auto
  show ?thesis
    unfolding e by (rule select_none[OF S c1_def c2_def])
qed

lemma resetStarCount_same: "sameWidget w (resetStarCount w)"
proof -
  have "sameWidget w (w\<lparr>content := removeClass ''selected''
          (find_in [] (isTag ''li'') (content w)) (content w)\<rparr>)"
    by (rule sameWidget_content) (simp add: shape_removeClass)
  then show ?thesis
    unfolding resetStarCount_def
    by (rule sameWidget_trans) (rule sameWidget_setCount)
qed

lemma resetStarCount_get: "data w \<noteq> None \<Longrightarrow> get (resetStarCount w) = None"
  by (simp add: resetStarCount_def get_setCount)

lemma resetStarCount_li:
  assumes "tagAt (content w) p = Some ''li''"
  shows "\<not> hasClass ''selected'' (content (resetStarCount w)) p"
proof -
  from assms have "nodeAt (content w) p \<noteq> None" by (auto simp: tagAt_def)
  with assms have "p \<in> set (find_in [] (isTag ''li'') (content w))"
    by (simp add: find_in_root_mem isTag_def)
  then show ?thesis
    by (cases "classesAt (content w) p")
       (simp_all add: resetStarCount_def content_setCount classesAt_removeClass hasClass_def
          hasClass_delete)
qed

lemma disableStarCount_same: "sameWidget w (disableStarCount w)"
  unfolding disableStarCount_def
  by (rule sameWidget_content) (simp add: shape_addClass)

lemma enableStarCount_same: "sameWidget w (enableStarCount w)"
  unfolding enableStarCount_def
  by (rule sameWidget_content) (simp add: shape_removeClass)

lemma not_ul_mem:
  assumes "tagAt c p \<noteq> Some ''ul''"
  shows "p \<notin> set (find_in [] (isTag ''ul'') c)"
  using assms by (simp add: find_in_root_mem isTag_def)

lemma disableStarCount_classes:
  assumes "tagAt (content w) p \<noteq> Some ''ul''"
  shows "classesAt (content (disableStarCount w)) p = classesAt (content w) p"
  using not_ul_mem[OF assms] by (simp add: disableStarCount_def classesAt_addClass)

lemma enableStarCount_classes:
  assumes "tagAt (content w) p \<noteq> Some ''ul''"
  shows "classesAt (content (enableStarCount w)) p = classesAt (content w) p"
  using not_ul_mem[OF assms] by (simp add: enableStarCount_def classesAt_removeClass)

lemma wrapped_star_not_ul:
  assumes "wrapped c wl n"
  shows "tagAt c [wl, k] \<noteq> Some ''ul''"
  by (simp add: wrapped_tagAt[OF assms] del: nodeAt.simps)

lemma find_tag_mem: "p \<in> set (find_in [] (isTag t) c) \<longleftrightarrow> isTag t c p"
  by (auto simp: find_in_root_mem isTag_def tagAt_def)

lemma resetStarCount_all:
  "classesAt (content (resetStarCount w)) p =
     (if isTag ''li'' (content w) p
      then map_option (deleteClass ''selected'') (classesAt (content w) p)
      else classesAt (content w) p)"
  by (simp add: resetStarCount_def content_setCount classesAt_removeClass find_tag_mem)

lemma disableStarCount_all:
  "classesAt (content (disableStarCount w)) p =
     (if isTag ''ul'' (content w) p
      then map_option (insertClass ''disable'') (classesAt (content w) p)
      else classesAt (content w) p)"
  by (simp add: disableStarCount_def classesAt_addClass find_tag_mem)

lemma enableStarCount_all:
  "classesAt (content (enableStarCount w)) p =
     (if isTag ''ul'' (content w) p
      then map_option (deleteClass ''disable'') (classesAt (content w) p)
      else classesAt (content w) p)"
  by (simp add: enableStarCount_def classesAt_removeClass find_tag_mem)

section \<open>The claims\<close>

lemma call_set:
  assumes "data w \<noteq> None" and "\<bar>n\<bar> < 10 ^ 21"
  shows "starRating (Str ''set'') [n] w = Inr (markStars n w, Elements)"
  using assms
  by (cases "data w")
     (simp_all add: startsWithUnderscore_def invoke_def getters_def set'_def setStarCount_def)

lemma call_set_big:
  assumes "data w \<noteq> None" and "10 ^ 21 \<le> \<bar>n\<bar>"
  shows "starRating (Str ''set'') [n] w = Inl SyntaxError"
  using assms
  by (cases "data w")
     (simp_all add: startsWithUnderscore_def invoke_def getters_def set'_def setStarCount_def)

lemma call_set_returns:
  assumes "data w \<noteq> None" and "starRating (Str ''set'') [n] w = Inr (w', r)"
  shows "w' = markStars n w" and "\<bar>n\<bar> < 10 ^ 21"
proof -
  show b: "\<bar>n\<bar> < 10 ^ 21"
  proof (rule ccontr)
    assume "\<not> \<bar>n\<bar> < 10 ^ 21"
    then have "10 ^ 21 \<le> \<bar>n\<bar>" by simp
    from call_set_big[OF assms(1) this] assms(2) show False by simp
  qed
  from call_set[OF assms(1) b] assms(2) show "w' = markStars n w" by simp
qed


lemma call_get':
  "data w \<noteq> None \<Longrightarrow> starRating (Str ''get'') [] w = Inr (w, Returned (get w))"
  by (cases "data w") (simp_all add: startsWithUnderscore_def getters_def get_def)

lemma call_reset:
  "data w \<noteq> None \<Longrightarrow> starRating (Str ''reset'') [] w = Inr (reset w, Elements)"
  by (cases "data w") (simp_all add: startsWithUnderscore_def invoke_def getters_def)

lemma call_disable:
  "data w \<noteq> None \<Longrightarrow> starRating (Str ''disable'') [] w = Inr (disable w, Elements)"
  by (cases "data w") (simp_all add: startsWithUnderscore_def invoke_def getters_def)

lemma call_enable:
  "data w \<noteq> None \<Longrightarrow> starRating (Str ''enable'') [] w = Inr (enable w, Elements)"
  by (cases "data w") (simp_all add: startsWithUnderscore_def invoke_def getters_def)

lemma initialized_data: "initialized w \<Longrightarrow> data w \<noteq> None"
  by (cases "data w") (simp_all add: initialized_def)

lemma sameWidget_starCount:
  assumes "sameWidget w s" "data w = Some thiz"
  shows "\<exists>thiz'. data s = Some thiz' \<and> starCount thiz' = starCount thiz"
  using assms by (cases "data s") (simp_all add: sameWidget_def)

lemma reset_same: "sameWidget w (reset w)"
  unfolding reset_def by (rule resetStarCount_same)

lemma disable_same: "sameWidget w (disable w)"
  unfolding disable_def by (rule disableStarCount_same)

lemma enable_same: "sameWidget w (enable w)"
  unfolding enable_def by (rule enableStarCount_same)

text \<open>
  C2. On an initialized widget with \<open>starCount\<close> stars, for every \<open>n\<close> from 1 to
  \<open>starCount\<close>, the call \<open>set(n)\<close> followed by \<open>get()\<close> returns \<open>n\<close>. The number of stars
  of a widget is far below \<open>10^21\<close>, from where on JavaScript would write \<open>n\<close> in exponent
  notation.
\<close>

theorem set_then_get:
  assumes "initialized w" and "data w = Some thiz" and "1 \<le> n" and "n \<le> starCount thiz"
    and "n < 10 ^ 21"
  shows "starRating (Str ''set'') [n] w = Inr (markStars n w, Elements) \<and>
         starRating (Str ''get'') [] (markStars n w) = Inr (markStars n w, Returned (Some n))"
proof -
  from assms(2) have d: "data w \<noteq> None" by simp
  then have d': "data (markStars n w) \<noteq> None"
    using sameWidget_data[OF markStars_same[of w n]] by simp
  from assms(3,5) have b: "\<bar>n\<bar> < 10 ^ 21" by simp
  have "get (markStars n w) = Some n"
    using d by (rule markStars_get)
  with call_get'[OF d'] call_set[OF d b] show ?thesis by simp
qed

theorem set_then_get_witness:
  "initialized threeStars \<and> data threeStars = Some \<lparr>count = None, starCount = 3\<rparr> \<and>
   starRating (Str ''set'') [2] threeStars = Inr (markStars 2 threeStars, Elements) \<and>
   starRating (Str ''get'') [] (markStars 2 threeStars) =
     Inr (markStars 2 threeStars, Returned (Some 2))"
proof -
  have i: "initialized threeStars" by code_simp
  have d: "data threeStars = Some \<lparr>count = None, starCount = 3\<rparr>" by code_simp
  from set_then_get[OF i d, of 2] i d show ?thesis by simp
qed




text \<open>
  C10 as stated fails for integers of magnitude \<open>10^21\<close> or more: JavaScript writes them
  in exponent notation, jQuery rejects the selector, and \<open>set\<close> throws before it records
  anything, so \<open>get()\<close> still returns the earlier value.
\<close>

theorem set_huge_counterexample:
  "starRating (Str ''set'') [10 ^ 21] threeStars = Inl SyntaxError \<and>
   starRating (Str ''get'') [] threeStars = Inr (threeStars, Returned None)"
  by code_simp

text \<open>
  C10, as the code has it. On an initialized widget, for every integer \<open>n\<close> below 1 or
  above \<open>starCount\<close> and of magnitude below \<open>10^21\<close>, the call \<open>set(n)\<close> leaves the classes
  of every star as they were, keeps the tree, the handlers and the configuration, and
  still records \<open>n\<close>: \<open>get()\<close> returns the out-of-range \<open>n\<close> afterwards.
\<close>

theorem set_out_of_range:
  assumes "initialized w" and "data w = Some thiz" and "n < 1 \<or> starCount thiz < n"
    and "\<bar>n\<bar> < 10 ^ 21"
  shows "starRating (Str ''set'') [n] w = Inr (markStars n w, Elements) \<and>
         sameWidget w (markStars n w) \<and>
         (\<forall>k. classesAt (content (markStars n w)) (star w k) = classesAt (content w) (star w k)) \<and>
         starRating (Str ''get'') [] (markStars n w) = Inr (markStars n w, Returned (Some n))"
proof -
  from assms(2) have d: "data w \<noteq> None" by simp
  then have d': "data (markStars n w) \<noteq> None"
    using sameWidget_data[OF markStars_same[of w n]] by simp
  have g: "get (markStars n w) = Some n"
    using d by (rule markStars_get)
  from assms(3) have "n < 1 \<or> int (nat (starCount thiz)) < n" by auto
  from markStars_out_of_range[OF initializedD(1)[OF assms(1,2)] this]
  have "\<forall>k. classesAt (content (markStars n w)) (star w k) = classesAt (content w) (star w k)"
    by (simp add: star_def)
  with call_get'[OF d'] call_set[OF d assms(4)] g markStars_same[of w n] show ?thesis by simp
qed

theorem set_out_of_range_witness:
  "initialized threeStars \<and> data threeStars = Some \<lparr>count = None, starCount = 3\<rparr> \<and>
   classesAt (content (markStars 7 threeStars)) (star threeStars 1) =
     classesAt (content threeStars) (star threeStars 1) \<and>
   starRating (Str ''get'') [] (markStars 7 threeStars) =
     Inr (markStars 7 threeStars, Returned (Some 7))"
proof -
  have i: "initialized threeStars" by code_simp
  have d: "data threeStars = Some \<lparr>count = None, starCount = 3\<rparr>" by code_simp
  from set_out_of_range[OF i d, of 7] i d show ?thesis by simp
qed

text \<open>
  C8. On a container on which \<open>create\<close> has run, a second \<open>create\<close> builds nothing: the
  instance, the handlers and the rendered stars stay as they are.
\<close>

theorem second_create_is_noop:
  assumes "data w \<noteq> None"
  shows "starRating (Obj options) rest w = Inr (w, Elements) \<and>
         starRating Undef rest w = Inr (w, Elements)"
  using assms by (auto simp: create_def)

theorem second_create_is_noop_witness:
  "data threeStars \<noteq> None \<and>
   starRating (Obj (Some 4)) [] threeStars = Inr (threeStars, Elements) \<and>
   starRating Undef [] threeStars = Inr (threeStars, Elements)"
proof -
  have d: "data threeStars \<noteq> None" by code_simp
  from second_create_is_noop[OF d, of "Some 4" "[]"] d show ?thesis by simp
qed

text \<open>
  C9. A method name that begins with an underscore is never dispatched: the wrapper calls
  no method of the instance, changes nothing and returns nothing. The same holds for the
  name \<open>init\<close>; only names without a leading underscore and other than \<open>init\<close> reach an
  instance.
\<close>

theorem private_names_not_dispatched:
  "starRating (Str (CHR ''_'' # name)) rest w = Inr (w, NoReturn) \<and>
   starRating (Str ''init'') rest w = Inr (w, NoReturn)"
  by (simp add: startsWithUnderscore_def)

lemma dispatched_returns:
  assumes "\<not> startsWithUnderscore name" and "name \<noteq> ''init''"
  shows "starRating (Str name) rest w \<noteq> Inr (w', NoReturn)"
  using assms by (auto split: option.splits sum.splits)

lemma setCalls_same:
  assumes "data w \<noteq> None" and "setCalls ns w = Inr s"
  shows "sameWidget w s"
  using assms
proof (induction ns arbitrary: w)
  case Nil
  then show ?case by (simp add: sameWidget_refl)
next
  case (Cons n ns)
  from Cons.prems(2) obtain w' r where c: "starRating (Str ''set'') [n] w = Inr (w', r)"
    and rest: "setCalls ns w' = Inr s"
    by (auto split: sum.splits)
  from call_set_returns(1)[OF Cons.prems(1) c] have e: "w' = markStars n w" .
  have same: "sameWidget w w'" unfolding e by (rule markStars_same)
  with Cons.prems(1) have "data w' \<noteq> None" using sameWidget_data by blast
  from Cons.IH[OF this rest] same show ?case by (blast intro: sameWidget_trans)
qed

lemma reset_all:
  "classesAt (content (reset w)) p =
     (if isTag ''li'' (content w) p
      then map_option (deleteClass ''selected'') (classesAt (content w) p)
      else classesAt (content w) p)"
  unfolding reset_def by (rule resetStarCount_all)

lemma initialized_star_li:
  assumes "initialized s" and "data s = Some thiz" and "1 \<le> k" and "k \<le> starCount thiz"
  shows "isTag ''li'' (content s) (star s k)"
proof -
  note w = initializedD(1)[OF assms(1,2)]
  from assms(3,4) have "nat (k - 1) < nat (starCount thiz)" by simp
  then show ?thesis
    by (simp add: isTag_def star_def wrapped_tagAt[OF w] del: nodeAt.simps)
qed

lemma reset_clears_star:
  assumes "initialized s" and "data s = Some thiz" and "1 \<le> k" and "k \<le> starCount thiz"
  shows "\<not> selected (reset s) k"
proof -
  from initialized_star_li[OF assms] have "tagAt (content s) (star s k) = Some ''li''"
    by (simp only: isTag_def)
  from resetStarCount_li[OF this] have "\<not> hasClass ''selected'' (content (reset s)) (star s k)"
    unfolding reset_def .
  then show ?thesis
    unfolding selected_def sameWidget_star[OF reset_same] .
qed

text \<open>
  C4. On an initialized widget, after any sequence of \<open>set(n)\<close> calls, \<open>reset()\<close> removes
  the selected mark from every star and a following \<open>get()\<close> returns \<open>null\<close>. Every star
  is still there: \<open>reset\<close> takes the class \<open>selected\<close> off every \<open>li\<close> in the container and
  changes no other class, nor the tree, the handlers or the configuration.
\<close>

theorem reset_clears:
  assumes "initialized w" and "data w = Some thiz" and "setCalls ns w = Inr s"
  shows "starRating (Str ''reset'') [] s = Inr (reset s, Elements) \<and>
         sameWidget s (reset s) \<and>
         (\<forall>p. classesAt (content (reset s)) p =
            (if isTag ''li'' (content s) p
             then map_option (deleteClass ''selected'') (classesAt (content s) p)
             else classesAt (content s) p)) \<and>
         (\<forall>k. 1 \<le> k \<and> k \<le> starCount thiz \<longrightarrow>
            isTag ''li'' (content (reset s)) (star s k) \<and> \<not> selected (reset s) k) \<and>
         starRating (Str ''get'') [] (reset s) = Inr (reset s, Returned None)"
proof -
  from assms(2) have dw: "data w \<noteq> None" by simp
  have same: "sameWidget w s" using dw assms(3) by (rule setCalls_same)
  have i: "initialized s" using assms(1) same by (rule sameWidget_initialized)
  from sameWidget_starCount[OF same assms(2)] obtain thiz'
    where d: "data s = Some thiz'" and sc: "starCount thiz' = starCount thiz" by blast
  have dn: "data s \<noteq> None" using d by simp
  have dr: "data (reset s) \<noteq> None"
    using sameWidget_data[OF reset_same[of s]] dn by simp
  have g: "get (reset s) = None"
    unfolding reset_def using dn by (rule resetStarCount_get)
  have "isTag ''li'' (content (reset s)) (star s k) \<and> \<not> selected (reset s) k"
    if "1 \<le> k \<and> k \<le> starCount thiz" for k
  proof -
    from that sc have k: "1 \<le> k" "k \<le> starCount thiz'" by simp_all
    from initialized_star_li[OF i d k]
    have "isTag ''li'' (content (reset s)) (star s k)"
      unfolding isTag_def
      by (simp only: tagAt_cong[OF sameWidget_shape[OF reset_same[of s]]])
    with reset_clears_star[OF i d k] show ?thesis by simp
  qed
  with call_reset[OF dn] call_get'[OF dr] g reset_same[of s] reset_all[of s]
  show ?thesis by simp
qed

theorem reset_clears_witness:
  "initialized threeStars \<and> data threeStars = Some \<lparr>count = None, starCount = 3\<rparr> \<and>
   setCalls [3, 2] threeStars = Inr (markStars 2 (markStars 3 threeStars)) \<and>
   \<not> selected (reset (markStars 2 (markStars 3 threeStars))) 1 \<and>
   \<not> selected (reset (markStars 2 (markStars 3 threeStars))) 2 \<and>
   \<not> selected (reset (markStars 2 (markStars 3 threeStars))) 3 \<and>
   starRating (Str ''get'') [] (reset (markStars 2 (markStars 3 threeStars))) =
     Inr (reset (markStars 2 (markStars 3 threeStars)), Returned None)"
proof -
  have i: "initialized threeStars" by code_simp
  have d: "data threeStars = Some \<lparr>count = None, starCount = 3\<rparr>" by code_simp
  have c: "setCalls [3, 2] threeStars = Inr (markStars 2 (markStars 3 threeStars))"
    by code_simp
  from reset_clears[OF i d c] i d c show ?thesis by simp
qed

text \<open>
  C5, as the code has it. \<open>create\<close> on a container without an instance appends the list of
  \<open>starCount\<close> new stars after the content the container already has; only an empty
  container ends up holding exactly the stars.
\<close>

theorem create_appends_stars:
  "starRating (Obj options) [] (container pre) = Inr (create options (container pre), Elements) \<and>
   content (create options (container pre)) =
     pre @ [Elem ''ul'' [''star-rating'']
              (replicate (nat (case options of None \<Rightarrow> defaults | Some n \<Rightarrow> n)) starLi)]"
  by (simp add: create_def container_def Plugin_def build_def Let_def)

text \<open>C5 as stated fails: a paragraph in the container is still there after \<open>create\<close>.\<close>

theorem create_replaces_content_counterexample:
  "starRating (Obj (Some 2)) [] (container [Elem ''p'' [] []]) = Inr (besideParagraph, Elements) \<and>
   content besideParagraph = [Elem ''p'' [] [], Elem ''ul'' [''star-rating''] [starLi, starLi]] \<and>
   content besideParagraph \<noteq> [Elem ''ul'' [''star-rating''] [starLi, starLi]]"
  by code_simp

text \<open>
  C6. Before \<open>create\<close> has run on a container, \<open>get\<close> is not a silent no-op: the getter
  branch reads a property of the missing instance and throws a \<open>TypeError\<close>.
\<close>

theorem get_before_create_throws:
  "starRating (Str ''get'') [] (container pre) = Inl TypeError"
  by (simp add: startsWithUnderscore_def getters_def container_def)

text \<open>The other commands go through the guarded branch and do nothing.\<close>

lemma guarded_commands_before_create:
  assumes "data w = None"
    and "name \<in> {''set'', ''reset'', ''disable'', ''enable'', ''destroy''}"
  shows "starRating (Str name) rest w = Inr (w, Elements)"
  using assms by (auto simp: startsWithUnderscore_def getters_def)

lemma disable_all:
  "classesAt (content (disable w)) p =
     (if isTag ''ul'' (content w) p
      then map_option (insertClass ''disable'') (classesAt (content w) p)
      else classesAt (content w) p)"
  unfolding disable_def by (rule disableStarCount_all)

lemma enable_all:
  "classesAt (content (enable w)) p =
     (if isTag ''ul'' (content w) p
      then map_option (deleteClass ''disable'') (classesAt (content w) p)
      else classesAt (content w) p)"
  unfolding enable_def by (rule enableStarCount_all)

lemma disable_keeps: "handlers (disable w) = handlers w" "data (disable w) = data w"
  by (simp_all add: disable_def disableStarCount_def)

lemma enable_keeps: "handlers (enable w) = handlers w" "data (enable w) = data w"
  by (simp_all add: enable_def enableStarCount_def)

lemma delete_insert: "deleteClass c (insertClass c cs) = deleteClass c cs"
  by (simp add: deleteClass_def insertClass_def)

lemma enable_disable_all:
  "classesAt (content (enable (disable w))) p =
     (if isTag ''ul'' (content w) p
      then map_option (deleteClass ''disable'') (classesAt (content w) p)
      else classesAt (content w) p)"
proof -
  have "isTag ''ul'' (content (disable w)) p = isTag ''ul'' (content w) p"
    unfolding isTag_def
    by (simp only: tagAt_cong[OF sameWidget_shape[OF disable_same[of w]]])
  then show ?thesis
    unfolding enable_all disable_all
    by (cases "classesAt (content w) p") (simp_all add: delete_insert)
qed

lemma star_not_list:
  assumes "initialized w"
  shows "\<not> isTag ''ul'' (content w) (star w k)"
proof -
  from assms obtain thiz where d: "data w = Some thiz"
    by (cases "data w") (simp_all add: initialized_def)
  from wrapped_star_not_ul[OF initializedD(1)[OF assms d]] show ?thesis
    unfolding isTag_def star_def .
qed

text \<open>
  C1 as stated fails: \<open>disable\<close> binds and unbinds nothing, and a click on the third star
  of a disabled widget changes \<open>get()\<close> from \<open>null\<close> to 3.
\<close>

theorem click_while_disabled_counterexample:
  "starRating (Str ''disable'') [] threeStars = Inr (disable threeStars, Elements) \<and>
   get (disable threeStars) = None \<and>
   get (trigger Click (star (disable threeStars) 3) (disable threeStars)) = Some 3"
  by code_simp

text \<open>
  C1, as the code has it. \<open>disable\<close> puts the class \<open>disable\<close> on every \<open>ul\<close> inside the
  container, the star list among them, and changes nothing else: no other class, not the
  tree, no handler and not the instance. A click on star \<open>i\<close> of a disabled widget still
  records \<open>i\<close>. \<open>enable\<close> takes the class off every \<open>ul\<close> again and changes nothing else;
  after \<open>disable\<close> followed by \<open>enable\<close> a click on star \<open>i\<close> leaves the same classes on the
  stars and records the same rating as a click on the widget before the \<open>disable\<close>.
\<close>

theorem click_ignores_disable:
  assumes "initialized w" and "data w = Some thiz" and "1 \<le> i" and "i \<le> starCount thiz"
  shows "starRating (Str ''disable'') [] w = Inr (disable w, Elements) \<and>
         handlers (disable w) = handlers w \<and> data (disable w) = data w \<and>
         map shape (content (disable w)) = map shape (content w) \<and>
         (\<forall>p. classesAt (content (disable w)) p =
            (if isTag ''ul'' (content w) p
             then map_option (insertClass ''disable'') (classesAt (content w) p)
             else classesAt (content w) p)) \<and>
         hasClass ''disable'' (content (disable w)) [wrapperIndex w] \<and>
         get (trigger Click (star (disable w) i) (disable w)) = Some i \<and>
         starRating (Str ''enable'') [] (disable w) = Inr (enable (disable w), Elements) \<and>
         handlers (enable (disable w)) = handlers w \<and> data (enable (disable w)) = data w \<and>
         map shape (content (enable (disable w))) = map shape (content w) \<and>
         (\<forall>p. classesAt (content (enable (disable w))) p =
            (if isTag ''ul'' (content w) p
             then map_option (deleteClass ''disable'') (classesAt (content w) p)
             else classesAt (content w) p)) \<and>
         \<not> hasClass ''disable'' (content (enable (disable w))) [wrapperIndex w] \<and>
         get (trigger Click (star (enable (disable w)) i) (enable (disable w))) =
           get (trigger Click (star w i) w) \<and>
         (\<forall>k. classesAt
                (content (trigger Click (star (enable (disable w)) i) (enable (disable w))))
                (star w k) =
              classesAt (content (trigger Click (star w i) w)) (star w k))"
proof -
  let ?d = "disable w" and ?e = "enable (disable w)"
  have dn: "data w \<noteq> None" using assms(2) by simp
  have sd: "sameWidget w ?d" by (rule disable_same)
  have se: "sameWidget w ?e" using sd enable_same by (rule sameWidget_trans)
  have id: "initialized ?d" using assms(1) sd by (rule sameWidget_initialized)
  have ie: "initialized ?e" using assms(1) se by (rule sameWidget_initialized)
  have dd: "data ?d = Some thiz" using assms(2) by (simp add: disable_keeps)
  have de: "data ?e = Some thiz" using assms(2) by (simp add: enable_keeps disable_keeps)
  have he: "handlers ?e = handlers w" by (simp add: enable_keeps disable_keeps)
  have ddn: "data ?d \<noteq> None" using dd by simp
  note c0 = click_star[OF assms]
  note cd = click_star[OF id dd assms(3,4)]
  note ce = click_star[OF ie de assms(3,4)]
  note wi = sameWidget_wrapperIndex[OF se]
  have ul: "isTag ''ul'' (content w) [wrapperIndex w]"
    by (rule liveD(1)[OF initialized_live[OF assms(1)] assms(2)])
  then obtain cs where cs: "classesAt (content w) [wrapperIndex w] = Some cs"
    by (auto simp: isTag_def tagAt_def classesAt_def simp del: nodeAt.simps)
  have hd: "hasClass ''disable'' (content ?d) [wrapperIndex w]"
    unfolding hasClass_def disable_all using ul cs by (simp add: hasClass_insert)
  have nhe: "\<not> hasClass ''disable'' (content ?e) [wrapperIndex w]"
    unfolding hasClass_def enable_disable_all using ul cs by (simp add: hasClass_delete)
  have same_stars: "classesAt (content ?e) [wrapperIndex w, k] =
      classesAt (content w) [wrapperIndex w, k]" for k
    unfolding enable_disable_all
    using star_not_list[OF assms(1), of "int k + 1"] by (simp add: star_def)
  have cl: "classesAt (content (trigger Click (star ?e i) ?e)) (star w k) =
        classesAt (content (trigger Click (star w i) w)) (star w k)" for k
  proof -
    have sk: "star w k = [wrapperIndex w, nat (k - 1)]" by (simp add: star_def)
    have a: "classesAt (content (trigger Click (star ?e i) ?e)) [wrapperIndex w, nat (k - 1)] =
        map_option (if nat (k - 1) \<le> nat (i - 1) then insertClass ''selected''
                    else deleteClass ''selected'')
          (classesAt (content w) [wrapperIndex w, nat (k - 1)])"
      using ce(4)[of "nat (k - 1)"] by (simp only: wi same_stars)
    show ?thesis
      unfolding sk a c0(4) ..
  qed
  from call_disable[OF dn] call_enable[OF ddn] disable_keeps[of w] he de assms(2)
    sameWidget_shape[OF sd] sameWidget_shape[OF se] disable_all[of w] enable_disable_all[of w]
    hd nhe cd(3) ce(3) c0(3) cl
  show ?thesis by simp
qed

theorem click_ignores_disable_witness:
  "initialized besideList \<and> data besideList = Some \<lparr>count = None, starCount = 2\<rparr> \<and>
   hasClass ''disable'' (content (disable besideList)) [wrapperIndex besideList] \<and>
   get (trigger Click (star (disable besideList) 2) (disable besideList)) = Some 2 \<and>
   get (trigger Click (star (enable (disable besideList)) 2) (enable (disable besideList))) =
     get (trigger Click (star besideList 2) besideList)"
proof -
  have i: "initialized besideList" by code_simp
  have d: "data besideList = Some \<lparr>count = None, starCount = 2\<rparr>" by code_simp
  from click_ignores_disable[OF i d, of 2] i d show ?thesis by simp
qed

lemma ratingInvariant_unset:
  assumes "data s = Some t" and "count t = None"
    and "\<And>k. 1 \<le> k \<Longrightarrow> k \<le> starCount t \<Longrightarrow> \<not> selected s k"
  shows "ratingInvariant s"
  using assms by (simp add: ratingInvariant_def)

lemma ratingInvariant_rated:
  assumes "data s = Some t" and "count t = Some m" and "1 \<le> m" and "m \<le> starCount t"
    and "\<And>k. 1 \<le> k \<Longrightarrow> k \<le> starCount t \<Longrightarrow> selected s k \<longleftrightarrow> k \<le> m"
  shows "ratingInvariant s"
  using assms by (simp add: ratingInvariant_def)

lemma get_count: "data s = Some t \<Longrightarrow> get s = count t"
  by (simp add: get_def)

lemma first_initialized: "initialized (create options (container pre))"
  by (simp add: create_def initialized_def Plugin_def build_def Let_def container_def
        wrapperIndex_def wrapped_def starLi_def)

lemma first_invariant: "ratingInvariant (create options (container pre))"
proof -
  let ?w = "create options (container pre)"
  let ?sc = "case options of None \<Rightarrow> defaults | Some n \<Rightarrow> n"
  have d: "data ?w = Some \<lparr>count = None, starCount = ?sc\<rparr>"
    by (simp add: create_def container_def Plugin_def Let_def)
  have c: "content ?w = pre @ [Elem ''ul'' [''star-rating''] (replicate (nat ?sc) starLi)]"
    by (simp add: create_def Plugin_def build_def Let_def container_def)
  have "\<not> selected ?w k" if "1 \<le> k" "k \<le> ?sc" for k
  proof -
    from that have "nat (k - 1) < nat ?sc" by simp
    then have "classesAt (content ?w) [length pre, nat (k - 1)] = Some [''star'']"
      unfolding c by (simp add: classesAt_def starLi_def)
    then show ?thesis
      by (simp add: selected_def star_def wrapperIndex_def hasClass_def c)
  qed
  with d show ?thesis
    by (intro ratingInvariant_unset[of ?w "\<lparr>count = None, starCount = ?sc\<rparr>"]) simp_all
qed

lemma set_invariant:
  assumes "initialized w" and "data w = Some t" and "1 \<le> n" and "n \<le> starCount t"
  shows "ratingInvariant (markStars n w)"
proof -
  note w = initializedD(1)[OF assms(1,2)]
  from sameWidget_starCount[OF markStars_same assms(2)] obtain t'
    where d: "data (markStars n w) = Some t'" and sc: "starCount t' = starCount t" by blast
  have "get (markStars n w) = Some n"
    using assms(2) by (intro markStars_get) simp
  then have c: "count t' = Some n" by (simp add: get_count[OF d])
  from assms(3,4) have m: "n \<le> int (nat (starCount t))" by simp
  have "selected (markStars n w) k \<longleftrightarrow> k \<le> n" if "1 \<le> k" for k
  proof -
    have "hasClass ''selected'' (content (markStars n w)) [wrapperIndex w, nat (k - 1)] \<longleftrightarrow>
          nat (k - 1) \<le> nat (n - 1)"
      by (rule markStars_in_range[OF w assms(3) m])
    then show ?thesis
      unfolding selected_star[OF markStars_same that] using that assms(3) by auto
  qed
  with d c assms(3,4) sc show ?thesis
    by (intro ratingInvariant_rated[of _ t' n]) simp_all
qed

lemma reset_invariant:
  assumes "initialized w"
  shows "ratingInvariant (reset w)"
proof -
  from initialized_data[OF assms] obtain t where dt: "data w = Some t" by auto
  from sameWidget_starCount[OF reset_same dt] obtain t'
    where d: "data (reset w) = Some t'" and sc: "starCount t' = starCount t" by blast
  have "get (reset w) = None"
    unfolding reset_def using dt by (intro resetStarCount_get) simp
  then have c: "count t' = None" by (simp add: get_count[OF d])
  have "\<not> selected (reset w) k" if "1 \<le> k" "k \<le> starCount t'" for k
    using reset_clears_star[OF assms dt that(1)] that(2) sc by simp
  with d c show ?thesis
    by (intro ratingInvariant_unset[of _ t']) simp_all
qed

lemma click_invariant:
  assumes "initialized w" and "data w = Some t" and "1 \<le> i" and "i \<le> starCount t"
  shows "ratingInvariant (trigger Click (star w i) w)"
proof -
  note c = click_star[OF assms]
  from sameWidget_starCount[OF c(1) assms(2)] obtain t'
    where d: "data (trigger Click (star w i) w) = Some t'"
      and sc: "starCount t' = starCount t" by blast
  from c(3) have ct: "count t' = Some i" by (simp add: get_count[OF d])
  have "selected (trigger Click (star w i) w) k \<longleftrightarrow> k \<le> i" if "1 \<le> k" for k
    unfolding selected_star[OF c(1) that] c(2) using that assms(3) by auto
  with d ct assms(3,4) sc show ?thesis
    by (intro ratingInvariant_rated[of _ t' i]) simp_all
qed

lemma disable_selected:
  assumes "initialized w"
  shows "selected (disable w) k = selected w k"
proof -
  from initialized_data[OF assms] obtain t where dt: "data w = Some t" by auto
  note w = initializedD(1)[OF assms dt]
  have "classesAt (content (disable w)) (star w k) = classesAt (content w) (star w k)"
    unfolding disable_def star_def
    by (rule disableStarCount_classes[OF wrapped_star_not_ul[OF w]])
  then show ?thesis
    by (simp add: selected_def hasClass_def sameWidget_star[OF disable_same])
qed

lemma enable_selected:
  assumes "initialized w"
  shows "selected (enable w) k = selected w k"
proof -
  from initialized_data[OF assms] obtain t where dt: "data w = Some t" by auto
  note w = initializedD(1)[OF assms dt]
  have "classesAt (content (enable w)) (star w k) = classesAt (content w) (star w k)"
    unfolding enable_def star_def
    by (rule enableStarCount_classes[OF wrapped_star_not_ul[OF w]])
  then show ?thesis
    by (simp add: selected_def hasClass_def sameWidget_star[OF enable_same])
qed

lemma disable_invariant:
  assumes "initialized w" and "ratingInvariant w"
  shows "ratingInvariant (disable w)"
proof -
  have "data (disable w) = data w"
    by (simp add: disable_def disableStarCount_def)
  then have "ratingInvariant (disable w) = ratingInvariant w"
    unfolding ratingInvariant_def disable_selected[OF assms(1)] by simp
  with assms(2) show ?thesis by simp
qed

lemma enable_invariant:
  assumes "initialized w" and "ratingInvariant w"
  shows "ratingInvariant (enable w)"
proof -
  have "data (enable w) = data w"
    by (simp add: enable_def enableStarCount_def)
  then have "ratingInvariant (enable w) = ratingInvariant w"
    unfolding ratingInvariant_def enable_selected[OF assms(1)] by simp
  with assms(2) show ?thesis by simp
qed

lemma reachable_initialized_invariant:
  "reachable w \<Longrightarrow> initialized w \<and> ratingInvariant w"
proof (induction rule: reachable.induct)
  case (reach_first options pre w r)
  then have "w = create options (container pre)" by simp
  then show ?case by (simp add: first_initialized first_invariant)
next
  case (reach_first_default pre w r)
  then have "w = create None (container pre)" by simp
  then show ?case by (simp add: first_initialized first_invariant)
next
  case (reach_create w options w' r)
  from reach_create.IH have "data w \<noteq> None" by (simp add: initialized_data)
  with reach_create.hyps(2) have "w' = w" by (auto simp: create_def)
  with reach_create.IH show ?case by simp
next
  case (reach_create_default w w' r)
  from reach_create_default.IH have "data w \<noteq> None" by (simp add: initialized_data)
  with reach_create_default.hyps(2) have "w' = w" by (auto simp: create_def)
  with reach_create_default.IH show ?case by simp
next
  case (reach_set w thiz n w' r)
  from reach_set.hyps(2) have "data w \<noteq> None" by simp
  from call_set_returns(1)[OF this reach_set.hyps(5)] have e: "w' = markStars n w" .
  from reach_set.IH have i: "initialized w" by simp
  from sameWidget_initialized[OF i markStars_same] set_invariant[OF i reach_set.hyps(2,3,4)]
  show ?case unfolding e by simp
next
  case (reach_reset w w' r)
  from reach_reset.IH have i: "initialized w" by simp
  from call_reset[OF initialized_data[OF i]] reach_reset.hyps(2) have e: "w' = reset w" by simp
  from sameWidget_initialized[OF i reset_same] reset_invariant[OF i]
  show ?case unfolding e by simp
next
  case (reach_disable w w' r)
  from reach_disable.IH have i: "initialized w" and v: "ratingInvariant w" by simp_all
  from call_disable[OF initialized_data[OF i]] reach_disable.hyps(2) have e: "w' = disable w"
    by simp
  from sameWidget_initialized[OF i disable_same] disable_invariant[OF i v]
  show ?case unfolding e by simp
next
  case (reach_enable w w' r)
  from reach_enable.IH have i: "initialized w" and v: "ratingInvariant w" by simp_all
  from call_enable[OF initialized_data[OF i]] reach_enable.hyps(2) have e: "w' = enable w"
    by simp
  from sameWidget_initialized[OF i enable_same] enable_invariant[OF i v]
  show ?case unfolding e by simp
next
  case (reach_click w thiz i)
  from reach_click.IH have init: "initialized w" by simp
  from sameWidget_initialized[OF init click_star(1)[OF init reach_click.hyps(2,3,4)]]
    click_invariant[OF init reach_click.hyps(2,3,4)]
  show ?case by simp
qed

text \<open>
  C7 as stated fails: \<open>set\<close> does not check its argument, and after \<open>create\<close> with three
  stars and \<open>set(7)\<close> the recorded rating is 7.
\<close>

theorem set_breaks_invariant_counterexample:
  "starRating (Obj (Some 3)) [] (container []) = Inr (threeStars, Elements) \<and>
   starRating (Str ''set'') [7] threeStars = Inr (markStars 7 threeStars, Elements) \<and>
   get (markStars 7 threeStars) = Some 7 \<and>
   \<not> ratingInvariant (markStars 7 threeStars)"
  by code_simp

text \<open>
  C7, as the code has it. In every state reached from \<open>create\<close> by \<open>create\<close>, \<open>reset\<close>,
  \<open>disable\<close>, \<open>enable\<close>, clicks on stars and calls \<open>set(n)\<close> with \<open>n\<close> from 1 to \<open>starCount\<close>, the
  stars marked selected are the first \<open>count\<close> ones and \<open>count\<close> is \<open>null\<close> or between 1 and
  \<open>starCount\<close>.
\<close>

theorem rating_invariant:
  assumes "reachable w"
  shows "ratingInvariant w"
  using reachable_initialized_invariant[OF assms] by simp

theorem rating_invariant_witness:
  "reachable (markStars 2 threeStars) \<and> ratingInvariant (markStars 2 threeStars)"
proof -
  have a: "starRating (Obj (Some 3)) [] (container []) = Inr (threeStars, Elements)"
    by code_simp
  have d: "data threeStars = Some \<lparr>count = None, starCount = 3\<rparr>" by code_simp
  have b: "starRating (Str ''set'') [2] threeStars = Inr (markStars 2 threeStars, Elements)"
    by code_simp
  have r: "reachable (markStars 2 threeStars)"
    by (rule reach_set[OF reach_first[OF a] d _ _ b]) simp_all
  from rating_invariant[OF r] r show ?thesis by simp
qed

end
